theory Spec2Isabelle
  imports Complex_Main
begin

section \<open>JavaScript values used by \<^verbatim>\<open>src/hackathon/app.js\<close>\<close>

text \<open>
  A JavaScript string is a sequence of UTF-16 code units. String literals of the source
  are written \<open>js ''...''\<close>.
\<close>

type_synonym js_string = "nat list"

definition js :: "string \<Rightarrow> js_string" where
  "js cs = map of_char cs"

text \<open>
  \<^verbatim>\<open>String.prototype.trim\<close> removes the ECMAScript WhiteSpace and LineTerminator code
  points from both ends: TAB, LF, VT, FF, CR, SP, NBSP, U+1680, U+2000..U+200A, U+2028,
  U+2029, U+202F, U+205F, U+3000 and U+FEFF.
\<close>

definition is_ws :: "nat \<Rightarrow> bool" where
  "is_ws c \<longleftrightarrow>
     c = 9 \<or> c = 10 \<or> c = 11 \<or> c = 12 \<or> c = 13 \<or> c = 32 \<or> c = 160 \<or> c = 5760 \<or>
     (8192 \<le> c \<and> c \<le> 8202) \<or> c = 8232 \<or> c = 8233 \<or> c = 8239 \<or> c = 8287 \<or>
     c = 12288 \<or> c = 65279"

definition trim :: "js_string \<Rightarrow> js_string" where
  "trim t = rev (dropWhile is_ws (rev (dropWhile is_ws t)))"

text \<open>
  A JavaScript number is an IEEE 754 binary64 value: NaN, an infinity, or a finite double,
  held here as the real number it denotes (the sign of zero is not kept: no operation used
  here tells the two zeros apart in what is shown). A value whose \<^verbatim>\<open>typeof\<close> is not
  \<^verbatim>\<open>'number'\<close> is \<open>None\<close>.
\<close>

datatype js_number = NaN | NegInf | PosInf | Num real

text \<open>
  Rounding of a real to the nearest double, ties to the even significand. \<open>bits n\<close> is the
  length of \<open>n\<close> in binary and \<open>ilog2 x\<close> the exponent of the power of two at or below a
  positive \<open>x\<close>. A double has a significand of 53 bits, so the spacing of the doubles around
  \<open>x\<close> is two to the \<open>qexp x\<close>, and never less than two to the -1074 (the subnormal
  doubles). A result of magnitude two to the 1024 or more overflows to an infinity.
\<close>

fun bits :: "nat \<Rightarrow> nat" where
  "bits n = (if n = 0 then 0 else Suc (bits (n div 2)))"

declare bits.simps [simp del]

definition ilog2 :: "real \<Rightarrow> int" where
  "ilog2 x =
     (if 1 \<le> x then int (bits (nat \<lfloor>x\<rfloor>)) - 1 else - int (bits (nat (\<lceil>1 / x\<rceil> - 1))))"

definition rne :: "real \<Rightarrow> int" where
  "rne x =
     (let f = \<lfloor>x\<rfloor>; d = x - of_int f
      in if d < 1 / 2 then f else if 1 / 2 < d then f + 1 else if even f then f else f + 1)"

definition qexp :: "real \<Rightarrow> int" where
  "qexp x = max (ilog2 \<bar>x\<bar> - 52) (- 1074)"

definition quantum :: "real \<Rightarrow> real" where
  "quantum x = 2 powi qexp x"

definition rnd :: "real \<Rightarrow> real" where
  "rnd x = (if x = 0 then 0 else of_int (rne (x / quantum x)) * quantum x)"

definition round64 :: "real \<Rightarrow> js_number" where
  "round64 x =
     (let r = rnd x
      in if 2 ^ 1024 \<le> r then PosInf else if r \<le> - (2 ^ 1024) then NegInf else Num r)"

text \<open>
  The operators \<^verbatim>\<open>-\<close> and \<^verbatim>\<open>*\<close> on numbers: the exact result, rounded to a double, with
  the IEEE rules for NaN and the infinities.
\<close>

fun js_sub :: "js_number \<Rightarrow> js_number \<Rightarrow> js_number" where
  "js_sub NaN b = NaN"
| "js_sub a NaN = NaN"
| "js_sub PosInf PosInf = NaN"
| "js_sub NegInf NegInf = NaN"
| "js_sub PosInf b = PosInf"
| "js_sub NegInf b = NegInf"
| "js_sub (Num x) PosInf = NegInf"
| "js_sub (Num x) NegInf = PosInf"
| "js_sub (Num x) (Num y) = round64 (x - y)"

fun js_mul :: "js_number \<Rightarrow> js_number \<Rightarrow> js_number" where
  "js_mul NaN b = NaN"
| "js_mul a NaN = NaN"
| "js_mul (Num x) (Num y) = round64 (x * y)"
| "js_mul (Num x) PosInf = (if x = 0 then NaN else if 0 < x then PosInf else NegInf)"
| "js_mul (Num x) NegInf = (if x = 0 then NaN else if 0 < x then NegInf else PosInf)"
| "js_mul PosInf (Num y) = (if y = 0 then NaN else if 0 < y then PosInf else NegInf)"
| "js_mul NegInf (Num y) = (if y = 0 then NaN else if 0 < y then NegInf else PosInf)"
| "js_mul PosInf PosInf = PosInf"
| "js_mul NegInf NegInf = PosInf"
| "js_mul PosInf NegInf = NegInf"
| "js_mul NegInf PosInf = NegInf"

text \<open>
  \<^verbatim>\<open>Math.round\<close> gives the integer nearest to its argument, a tie towards plus infinity,
  and returns NaN and the infinities as they are; \<^verbatim>\<open>Math.min\<close> and \<^verbatim>\<open>Math.max\<close> give NaN
  when an argument is NaN. \<open>js_le\<close> is the comparison \<^verbatim>\<open><=\<close>.
\<close>

fun Math_round :: "js_number \<Rightarrow> js_number" where
  "Math_round (Num x) = Num (of_int \<lfloor>x + 1 / 2\<rfloor>)"
| "Math_round v = v"

fun Math_min :: "js_number \<Rightarrow> js_number \<Rightarrow> js_number" where
  "Math_min NaN b = NaN"
| "Math_min a NaN = NaN"
| "Math_min NegInf b = NegInf"
| "Math_min a NegInf = NegInf"
| "Math_min PosInf b = b"
| "Math_min a PosInf = a"
| "Math_min (Num x) (Num y) = Num (min x y)"

fun Math_max :: "js_number \<Rightarrow> js_number \<Rightarrow> js_number" where
  "Math_max NaN b = NaN"
| "Math_max a NaN = NaN"
| "Math_max PosInf b = PosInf"
| "Math_max a PosInf = PosInf"
| "Math_max NegInf b = b"
| "Math_max a NegInf = a"
| "Math_max (Num x) (Num y) = Num (max x y)"

fun js_le :: "js_number \<Rightarrow> js_number \<Rightarrow> bool" where
  "js_le NaN b = False"
| "js_le a NaN = False"
| "js_le NegInf b = True"
| "js_le a PosInf = True"
| "js_le (Num x) (Num y) = (x \<le> y)"
| "js_le a b = False"

section \<open>Data exchanged with the collaborators\<close>

text \<open>One entry of the backend's \<^verbatim>\<open>matches\<close> array: \<^verbatim>\<open>{ name, score }\<close>.\<close>

record match =
  name :: js_string
  score :: "js_number option"

text \<open>
  The parsed body of a successful search response, \<^verbatim>\<open>{ matches?, warning? }\<close>; an absent
  (or null) field is \<open>None\<close>. \<open>JNull\<close> is a body that parses to \<^verbatim>\<open>null\<close>, on which the
  property access \<^verbatim>\<open>data.matches\<close> throws.
\<close>

record search_data =
  data_matches :: "match list option"
  data_warning :: "js_string option"

datatype json_body = JNull | JObj search_data

text \<open>
  What \<^verbatim>\<open>worker.recognize\<close> resolves to, \<^verbatim>\<open>{ data }\<close>: \<open>NoData\<close> when \<^verbatim>\<open>data\<close> is missing,
  otherwise \<^verbatim>\<open>data.text\<close> (\<open>None\<close> when missing).
\<close>

datatype ocr_result = NoData | Data "js_string option"

text \<open>A message passed to the worker's \<^verbatim>\<open>logger\<close>: \<^verbatim>\<open>{ status, progress }\<close>.\<close>

record log_msg =
  status :: js_string
  progress :: "js_number option"

text \<open>The file picked in the upload input (opaque; the \<^verbatim>\<open>FileReader\<close> produces its data URL).\<close>

datatype upload_file = UploadFile js_string

datatype worker = Worker

section \<open>Suspended handlers\<close>

text \<open>
  Every handler of the component is an \<^verbatim>\<open>async\<close> function. A running handler invocation
  (a job) is suspended at one of its \<^verbatim>\<open>await\<close> points, or waits for the \<^verbatim>\<open>FileReader\<close>:
  \<^item> \<open>AwaitReader\<close>: \<^verbatim>\<open>reader.readAsDataURL(file)\<close> has been called (line 121);
  \<^item> \<open>AwaitRecognize\<close>: \<^verbatim>\<open>await workerRef.current.recognize(dataUrl)\<close> (line 66);
  \<^item> \<open>AwaitFetch\<close>: \<^verbatim>\<open>await fetch(...)\<close> (line 88);
  \<^item> \<open>AwaitText\<close>: \<^verbatim>\<open>await res.text()\<close> (line 95);
  \<^item> \<open>AwaitJson\<close>: \<^verbatim>\<open>await res.json()\<close> (line 101).
  No continuation needs a captured variable: \<^verbatim>\<open>dataUrl\<close> and \<^verbatim>\<open>text\<close> are not read after
  the await.
\<close>

datatype cont = AwaitReader | AwaitRecognize | AwaitFetch | AwaitText | AwaitJson

text \<open>The value an awaited operation settles with; \<open>Rejected\<close> is a rejection (a throw).\<close>

datatype settled =
    Rejected
  | ReaderLoaded js_string
  | Recognized ocr_result
  | Response bool
  | BodyText js_string
  | BodyJson json_body

text \<open>The three awaits of \<^verbatim>\<open>initWorker\<close> (lines 31 to 33).\<close>

datatype init_cont = AwaitLoad | AwaitLoadLanguage | AwaitInitialize

section \<open>The component's state\<close>

text \<open>
  The first eight fields are the \<^verbatim>\<open>useState\<close> cells and the \<^verbatim>\<open>workerRef\<close> of the source.
  The next six record what the component did to its surroundings: the \<^verbatim>\<open>alert\<close> texts,
  the \<^verbatim>\<open>console\<close> labels, the arguments of \<^verbatim>\<open>recognize\<close>, the \<^verbatim>\<open>text\<close> of every search
  request, the number of \<^verbatim>\<open>terminate\<close> calls and the number of promises rejected with no
  handler. The last three are the event loop's view: the suspended jobs by number, the
  next job number and the await \<^verbatim>\<open>initWorker\<close> is suspended at.
\<close>

record app_state =
  imageSrc :: "js_string option"
  ocrText :: js_string
  matches :: "match list"
  warning :: "js_string option"
  loadingOcr :: bool
  ocrProgress :: js_number
  isWorkerReady :: bool
  workerRef :: "worker option"
  alerts :: "js_string list"
  console :: "js_string list"
  recognizeCalls :: "js_string list"
  fetchCalls :: "js_string list"
  terminateCalls :: nat
  unhandled :: nat
  pending :: "nat \<rightharpoonup> cont"
  nextJob :: nat
  initAwait :: "init_cont option"

definition init_state :: app_state where
  "init_state =
     \<lparr>imageSrc = None, ocrText = [], matches = [], warning = None, loadingOcr = False,
      ocrProgress = Num 0, isWorkerReady = False, workerRef = None, alerts = [], console = [],
      recognizeCalls = [], fetchCalls = [], terminateCalls = 0, unhandled = 0,
      pending = Map.empty, nextJob = 0, initAwait = None\<rparr>"

definition suspend :: "nat \<Rightarrow> cont \<Rightarrow> app_state \<Rightarrow> app_state" where
  "suspend j k s = s\<lparr>pending := (pending s)(j \<mapsto> k)\<rparr>"

definition finish :: "nat \<Rightarrow> app_state \<Rightarrow> app_state" where
  "finish j s = s\<lparr>pending := (pending s)(j := None)\<rparr>"

section \<open>The worker: \<^verbatim>\<open>initWorker\<close>, the logger and the cleanup (lines 20 to 52)\<close>

text \<open>
  The logger given to \<^verbatim>\<open>createWorker\<close> (lines 23 to 28). It belongs to the worker, so it
  is not called before the worker exists.
\<close>

definition logger :: "log_msg \<Rightarrow> app_state \<Rightarrow> app_state" where
  "logger m s =
     (case progress m of
        Some p \<Rightarrow>
          if status m = js ''recognizing text''
          then s\<lparr>ocrProgress := Math_round (js_mul p (Num 100))\<rparr>
          else s
      | None \<Rightarrow> s)"

text \<open>
  The effect on mount: \<^verbatim>\<open>initWorker()\<close> runs to its first await (lines 22 to 31); its
  promise has no rejection handler.
\<close>

definition mount :: "app_state \<Rightarrow> app_state" where
  "mount s = s\<lparr>workerRef := Some Worker, initAwait := Some AwaitLoad\<rparr>"

definition init_settle :: "bool \<Rightarrow> app_state \<Rightarrow> app_state" where
  "init_settle resolved s =
     (case initAwait s of
        None \<Rightarrow> s
      | Some k \<Rightarrow>
          if \<not> resolved then s\<lparr>initAwait := None, unhandled := unhandled s + 1\<rparr>
          else (case k of
             AwaitLoad \<Rightarrow> s\<lparr>initAwait := Some AwaitLoadLanguage\<rparr>
           | AwaitLoadLanguage \<Rightarrow> s\<lparr>initAwait := Some AwaitInitialize\<rparr>
           | AwaitInitialize \<Rightarrow>
               s\<lparr>isWorkerReady := True, console := console s @ [js ''Tesseract worker ready''],
                 initAwait := None\<rparr>))"

text \<open>
  The cleanup on unmount (lines 40 to 51): \<^verbatim>\<open>terminate\<close> is called when the ref holds a
  worker, inside \<^verbatim>\<open>try\<close>; the \<^verbatim>\<open>catch\<close> block is empty, so neither outcome of the awaited
  call does anything.
\<close>

definition unmount :: "app_state \<Rightarrow> app_state" where
  "unmount s =
     (case workerRef s of
        None \<Rightarrow> s
      | Some w \<Rightarrow> s\<lparr>terminateCalls := terminateCalls s + 1\<rparr>)"

definition terminate_settle :: "bool \<Rightarrow> app_state \<Rightarrow> app_state" where
  "terminate_settle resolved s = s"

section \<open>\<^verbatim>\<open>runOcr\<close> (lines 55 to 76)\<close>

text \<open>
  Up to the await: \<open>Some t\<close> when the function returned \<open>t\<close> without awaiting, \<open>None\<close> when
  it is suspended at \<^verbatim>\<open>recognize\<close>.
\<close>

definition runOcr_begin :: "js_string \<Rightarrow> app_state \<Rightarrow> js_string option \<times> app_state" where
  "runOcr_begin dataUrl s =
     (if workerRef s = None
      then (Some [], s\<lparr>alerts := alerts s @ [js ''OCR engine not ready yet. Please wait a moment.'']\<rparr>)
      else (None, s\<lparr>loadingOcr := True, ocrText := [], ocrProgress := Num 0,
                     recognizeCalls := recognizeCalls s @ [dataUrl]\<rparr>))"

text \<open>
  After the await: \<open>Some r\<close> is the resolved value, \<open>None\<close> a rejection. \<^verbatim>\<open>data.text\<close> is
  trimmed when \<^verbatim>\<open>data\<close> and \<^verbatim>\<open>data.text\<close> are truthy.
\<close>

definition runOcr_resume :: "ocr_result option \<Rightarrow> app_state \<Rightarrow> js_string \<times> app_state" where
  "runOcr_resume r s =
     (case r of
        Some d \<Rightarrow>
          (let text = (case d of
                         Data (Some t) \<Rightarrow> if t \<noteq> [] then trim t else []
                       | Data None \<Rightarrow> []
                       | NoData \<Rightarrow> [])
           in (text, s\<lparr>ocrText := text, loadingOcr := False\<rparr>))
      | None \<Rightarrow> ([], s\<lparr>console := console s @ [js ''OCR error:''], loadingOcr := False\<rparr>))"

section \<open>\<^verbatim>\<open>queryBackend\<close> (lines 79 to 108)\<close>

text \<open>Up to the await: \<open>True\<close> when the function is suspended at \<^verbatim>\<open>fetch\<close>.\<close>

definition queryBackend_begin :: "js_string \<Rightarrow> app_state \<Rightarrow> bool \<times> app_state" where
  "queryBackend_begin t s =
     (let s1 = s\<lparr>matches := [], warning := None\<rparr>
      in if t = [] \<or> trim t = []
         then (False, s1\<lparr>warning := Some (js ''No text found by OCR.'')\<rparr>)
         else (True, s1\<lparr>fetchCalls := fetchCalls s1 @ [t]\<rparr>))"

text \<open>The \<^verbatim>\<open>catch\<close> block (lines 104 to 107).\<close>

definition network_error :: "app_state \<Rightarrow> app_state" where
  "network_error s =
     s\<lparr>console := console s @ [js ''Network error:''],
       warning := Some (js ''Network error when contacting backend.'')\<rparr>"

text \<open>
  From one await of the \<^verbatim>\<open>try\<close> block to the next: \<open>Some k\<close> when the function is
  suspended again, \<open>None\<close> when it returned. A value that the awaited operation cannot
  settle with leaves the function where it is.
\<close>

fun queryBackend_resume :: "cont \<Rightarrow> settled \<Rightarrow> app_state \<Rightarrow> cont option \<times> app_state" where
  "queryBackend_resume AwaitFetch (Response ok) s =
     (if \<not> ok then (Some AwaitText, s) else (Some AwaitJson, s))"
| "queryBackend_resume AwaitFetch Rejected s = (None, network_error s)"
| "queryBackend_resume AwaitText (BodyText err) s =
     (None, s\<lparr>console := console s @ [js ''Backend error:''],
               warning := Some (js ''Server error when searching. Check backend.'')\<rparr>)"
| "queryBackend_resume AwaitText Rejected s = (None, network_error s)"
| "queryBackend_resume AwaitJson (BodyJson (JObj d)) s =
     (let s1 = s\<lparr>matches := (case data_matches d of Some ms \<Rightarrow> ms | None \<Rightarrow> [])\<rparr>
      in (None, case data_warning d of
                  Some w \<Rightarrow> if w \<noteq> [] then s1\<lparr>warning := Some w\<rparr> else s1
                | None \<Rightarrow> s1))"
| "queryBackend_resume AwaitJson (BodyJson JNull) s = (None, network_error s)"
| "queryBackend_resume AwaitJson Rejected s = (None, network_error s)"
| "queryBackend_resume k v s = (Some k, s)"

section \<open>The handlers (lines 111 to 134)\<close>

text \<open>
  \<^verbatim>\<open>await queryBackend(text)\<close>, the last statement of both handlers, for job \<open>j\<close>.
\<close>

definition call_queryBackend :: "nat \<Rightarrow> js_string \<Rightarrow> app_state \<Rightarrow> app_state" where
  "call_queryBackend j t s =
     (case queryBackend_begin t s of
        (True, s') \<Rightarrow> suspend j AwaitFetch s'
      | (False, s') \<Rightarrow> finish j s')"

text \<open>
  \<^verbatim>\<open>const text = await runOcr(x); await queryBackend(text)\<close>, the tail of both handlers.
\<close>

definition call_runOcr :: "nat \<Rightarrow> js_string \<Rightarrow> app_state \<Rightarrow> app_state" where
  "call_runOcr j dataUrl s =
     (case runOcr_begin dataUrl s of
        (Some t, s') \<Rightarrow> call_queryBackend j t s'
      | (None, s') \<Rightarrow> suspend j AwaitRecognize s')"

text \<open>
  \<^verbatim>\<open>handleCapture\<close> (lines 125 to 134); \<open>img\<close> is what \<^verbatim>\<open>getScreenshot()\<close> returned, \<open>None\<close>
  for \<^verbatim>\<open>null\<close>. The empty string is falsy too.
\<close>

definition handleCapture :: "js_string option \<Rightarrow> app_state \<Rightarrow> app_state" where
  "handleCapture img s =
     (case img of
        None \<Rightarrow> s\<lparr>alerts := alerts s @ [js ''Could not capture image from camera.'']\<rparr>
      | Some i \<Rightarrow>
          if i = [] then s\<lparr>alerts := alerts s @ [js ''Could not capture image from camera.'']\<rparr>
          else (let j = nextJob s
                in call_runOcr j i (s\<lparr>imageSrc := Some i, nextJob := j + 1\<rparr>)))"

text \<open>
  \<^verbatim>\<open>handleFileChange\<close> (lines 111 to 122): with a file, a reader is started and the handler
  returns; \<^verbatim>\<open>reader.onload\<close> runs later, with \<^verbatim>\<open>reader.result\<close>.
\<close>

definition handleFileChange :: "upload_file option \<Rightarrow> app_state \<Rightarrow> app_state" where
  "handleFileChange f s =
     (case f of
        None \<Rightarrow> s
      | Some x \<Rightarrow> (let j = nextJob s in suspend j AwaitReader (s\<lparr>nextJob := j + 1\<rparr>)))"

definition reader_onload :: "nat \<Rightarrow> js_string \<Rightarrow> app_state \<Rightarrow> app_state" where
  "reader_onload j dataUrl s = call_runOcr j dataUrl (s\<lparr>imageSrc := Some dataUrl\<rparr>)"

section \<open>The event loop\<close>

text \<open>Job \<open>j\<close>, suspended at \<open>k\<close>, is resumed with the settled value \<open>v\<close>.\<close>

fun resume :: "nat \<Rightarrow> cont \<Rightarrow> settled \<Rightarrow> app_state \<Rightarrow> app_state" where
  "resume j AwaitReader (ReaderLoaded dataUrl) s = reader_onload j dataUrl s"
| "resume j AwaitReader Rejected s = finish j s"
| "resume j AwaitReader v s = s"
| "resume j AwaitRecognize (Recognized r) s =
     (case runOcr_resume (Some r) s of (t, s') \<Rightarrow> call_queryBackend j t s')"
| "resume j AwaitRecognize Rejected s =
     (case runOcr_resume None s of (t, s') \<Rightarrow> call_queryBackend j t s')"
| "resume j AwaitRecognize v s = s"
| "resume j k v s =
     (case queryBackend_resume k v s of
        (Some k', s') \<Rightarrow> suspend j k' s'
      | (None, s') \<Rightarrow> finish j s')"

text \<open>
  What the surroundings can do to the component. The capture button is rendered with
  \<^verbatim>\<open>disabled={!isWorkerReady}\<close> (line 179), so a click reaches \<^verbatim>\<open>handleCapture\<close> only when
  \<^verbatim>\<open>isWorkerReady\<close> holds; the upload input has no such attribute (lines 159 to 165).
\<close>

datatype event =
    Mount
  | InitSettle bool
  | Unmount
  | TerminateSettle bool
  | Logger log_msg
  | ClickCapture "js_string option"
  | FileChange "upload_file option"
  | Settle nat settled

fun step :: "app_state \<Rightarrow> event \<Rightarrow> app_state" where
  "step s Mount = mount s"
| "step s (InitSettle b) = init_settle b s"
| "step s Unmount = unmount s"
| "step s (TerminateSettle b) = terminate_settle b s"
| "step s (Logger m) = (if workerRef s = None then s else logger m s)"
| "step s (ClickCapture img) = (if isWorkerReady s then handleCapture img s else s)"
| "step s (FileChange f) = handleFileChange f s"
| "step s (Settle j v) = (case pending s j of None \<Rightarrow> s | Some k \<Rightarrow> resume j k v s)"

definition exec :: "app_state \<Rightarrow> event list \<Rightarrow> app_state" where
  "exec s evs = foldl step s evs"

section \<open>Rendering of a match (lines 137 to 142 and 220 to 225)\<close>

text \<open>\<open>Percent p\<close> stands for the text \<^verbatim>\<open>`${p}%`\<close>, \<open>Dash\<close> for the dash.\<close>

datatype confidence = Dash | Percent js_number

definition scoreToPercent :: "js_number option \<Rightarrow> confidence" where
  "scoreToPercent sc =
     (case sc of
        None \<Rightarrow> Dash
      | Some x \<Rightarrow>
          Percent (Math_max (Num 0)
            (Math_min (Num 100) (Math_round (js_mul (js_sub (Num 1) x) (Num 100))))))"


section \<open>Runs of the component\<close>

text \<open>
  A job is started by a click on the capture button or by picking a file; in the second
  case the reader's \<^verbatim>\<open>onload\<close> follows, for the job the picking created.
\<close>

datatype trigger = Capture | Upload upload_file

fun start_events :: "trigger \<Rightarrow> js_string \<Rightarrow> nat \<Rightarrow> event list" where
  "start_events Capture img j = [ClickCapture (Some img)]"
| "start_events (Upload f) img j = [FileChange (Some f), Settle j (ReaderLoaded img)]"

text \<open>
  The states in which the trigger starts a recognition: the worker exists, and for a capture
  the button is enabled and the screenshot is not empty.
\<close>

definition starts :: "trigger \<Rightarrow> js_string \<Rightarrow> app_state \<Rightarrow> bool" where
  "starts trig img s \<longleftrightarrow>
     workerRef s \<noteq> None \<and>
     (case trig of Capture \<Rightarrow> isWorkerReady s \<and> img \<noteq> [] | Upload f \<Rightarrow> True)"

text \<open>The states after each event of a run, in order.\<close>

fun states :: "app_state \<Rightarrow> event list \<Rightarrow> app_state list" where
  "states s [] = []"
| "states s (e # es) = step s e # states (step s e) es"

text \<open>
  The events of one job \<open>j\<close> while no other job runs: the engine's log messages and the
  settling of the job's own awaits.
\<close>

fun job_event :: "nat \<Rightarrow> event \<Rightarrow> bool" where
  "job_event j (Logger m) = True"
| "job_event j (Settle i v) = (i = j)"
| "job_event j e = False"

text \<open>
  The progress values the engine reports for the recognition stage in a run, in order
  (messages of status \<^verbatim>\<open>'recognizing text'\<close> whose progress is a number).
\<close>

fun logged :: "event list \<Rightarrow> js_number list" where
  "logged [] = []"
| "logged (Logger m # es) =
     (case progress m of
        Some p \<Rightarrow> if status m = js ''recognizing text'' then p # logged es else logged es
      | None \<Rightarrow> logged es)"
| "logged (e # es) = logged es"

text \<open>
  The integer that the logger's expression gives for a progress \<open>p\<close> between 0 and 1:
  the double product of \<open>p\<close> and 100, rounded to the nearest integer.
\<close>

definition pub :: "real \<Rightarrow> int" where
  "pub p = \<lfloor>rnd (p * 100) + 1 / 2\<rfloor>"

text \<open>The text the engine extracted: \<^verbatim>\<open>data.text\<close>, empty when it is missing.\<close>

definition extracted_text :: "ocr_result \<Rightarrow> js_string" where
  "extracted_text r = (case r of Data (Some t) \<Rightarrow> t | Data None \<Rightarrow> [] | NoData \<Rightarrow> [])"

text \<open>The component after mounting and a successful initialisation of the worker.\<close>

definition ready_state :: app_state where
  "ready_state = exec init_state [Mount, InitSettle True, InitSettle True, InitSettle True]"

text \<open>Concrete runs used as examples: a capture in the ready component, and some replies.\<close>

definition awaiting_state :: app_state where
  "awaiting_state = exec ready_state [ClickCapture (Some (js ''img1''))]"

definition paracetamol :: match where
  "paracetamol = \<lparr>name = js ''Paracetamol'', score = Some (round64 (1 / 10))\<rparr>"

definition paracetamol_text :: ocr_result where
  "paracetamol_text = Data (Some (js ''PARACETAMOL 500mg''))"

definition blank_warning_reply :: search_data where
  "blank_warning_reply = \<lparr>data_matches = Some [paracetamol], data_warning = Some []\<rparr>"

definition half_done :: log_msg where
  "half_done = \<lparr>status = js ''recognizing text'', progress = Some (Num (1 / 2))\<rparr>"

definition progress_events :: "event list" where
  "progress_events =
     [Logger \<lparr>status = js ''loading tesseract core'', progress = Some (Num 1)\<rparr>,
      Logger \<lparr>status = js ''recognizing text'', progress = Some (round64 (1 / 5))\<rparr>,
      Logger half_done,
      Settle 0 (Recognized paracetamol_text)]"

text \<open>Log messages of the recognition stage that go down, and one above 1.\<close>

definition erratic_events :: "event list" where
  "erratic_events =
     [Logger \<lparr>status = js ''recognizing text'', progress = Some (Num 1)\<rparr>,
      Logger \<lparr>status = js ''recognizing text'', progress = Some (round64 (3 / 10))\<rparr>,
      Logger \<lparr>status = js ''recognizing text'', progress = Some (Num (3 / 2))\<rparr>]"

definition busy_events :: "event list" where
  "busy_events =
     [InitSettle True, InitSettle True, InitSettle True, ClickCapture (Some (js ''img1''))]"

text \<open>The component after mounting, while \<^verbatim>\<open>initWorker\<close> awaits \<^verbatim>\<open>worker.load()\<close>.\<close>

definition initializing_state :: app_state where
  "initializing_state = exec init_state [Mount]"

definition upload_events :: "event list" where
  "upload_events = start_events (Upload (UploadFile (js ''label.jpg''))) (js ''img1'') 0"

definition ibuprofen :: match where
  "ibuprofen = \<lparr>name = js ''Ibuprofen'', score = Some (round64 (1 / 5))\<rparr>"

definition ibuprofen_text :: ocr_result where
  "ibuprofen_text = Data (Some (js ''IBUPROFEN 200mg''))"

text \<open>
  Two captures in a row; the second job (number 1) has run to its end while the first
  (number 0) still awaits its recognition. \<open>late_events\<close> are the first job's callbacks.
\<close>

definition overlap_state :: app_state where
  "overlap_state = exec ready_state
     [ClickCapture (Some (js ''img1'')), ClickCapture (Some (js ''img2'')),
      Settle 1 (Recognized paracetamol_text), Settle 1 (Response True),
      Settle 1 (BodyJson (JObj \<lparr>data_matches = Some [paracetamol], data_warning = None\<rparr>))]"

definition late_events :: "event list" where
  "late_events =
     [Settle 0 (Recognized ibuprofen_text), Settle 0 (Response True),
      Settle 0 (BodyJson (JObj \<lparr>data_matches = Some [ibuprofen], data_warning = None\<rparr>))]"

text \<open>
  Two captures in a row whose callbacks cross: the reply to the first job's search arrives
  between the second job's recognition result and the rejection of its \<^verbatim>\<open>fetch\<close>.
\<close>

definition crossed_events :: "event list" where
  "crossed_events =
     [ClickCapture (Some (js ''img1'')), ClickCapture (Some (js ''img2'')),
      Settle 0 (Recognized ibuprofen_text), Settle 0 (Response True),
      Settle 1 (Recognized paracetamol_text),
      Settle 0 (BodyJson (JObj \<lparr>data_matches = Some [ibuprofen], data_warning = None\<rparr>)),
      Settle 1 Rejected]"

definition stale_state :: app_state where
  "stale_state = exec overlap_state late_events"

definition fresh_run :: "nat \<Rightarrow> trigger \<Rightarrow> event list" where
  "fresh_run j trig =
     start_events trig (js ''img3'') j @ map Logger [half_done] @
     map (Settle j) [Recognized paracetamol_text, Response True,
       BodyJson (JObj \<lparr>data_matches = Some [paracetamol], data_warning = None\<rparr>)]"

text \<open>The published state the rendering shows for a job: text, progress, matches, warning.\<close>

definition published :: "app_state \<Rightarrow> js_string \<times> js_number \<times> match list \<times> js_string option" where
  "published s = (ocrText s, ocrProgress s, matches s, warning s)"

text \<open>The values the awaited \<^verbatim>\<open>recognize\<close> call can settle with.\<close>

fun recognition_outcome :: "settled \<Rightarrow> bool" where
  "recognition_outcome Rejected = True"
| "recognition_outcome (Recognized r) = True"
| "recognition_outcome v = False"

section \<open>Basic facts\<close>

subsection \<open>Rounding to a double\<close>

lemma bits_bounds: "0 < n \<Longrightarrow> 2 ^ (bits n - 1) \<le> n \<and> n < 2 ^ bits n"
proof (induction n rule: bits.induct)
  case (1 n)
  show ?case
  proof (cases "n div 2 = 0")
    case True
    with "1.prems" have "n = 1" by auto
    then show ?thesis by (simp add: bits.simps)
  next
    case False
    then have IH: "2 ^ (bits (n div 2) - 1) \<le> n div 2" "n div 2 < 2 ^ bits (n div 2)"
      using "1.IH" "1.prems" by auto
    have b: "bits n = Suc (bits (n div 2))"
      using "1.prems" by (subst bits.simps) simp
    have pos: "0 < bits (n div 2)"
      using False by (subst bits.simps) simp
    then have "(2::nat) ^ (bits n - 1) = 2 * 2 ^ (bits (n div 2) - 1)"
      unfolding b by (cases "bits (n div 2)") simp_all
    moreover have "2 * (n div 2) \<le> n" "n < 2 * (n div 2) + 2"
      by presburger+
    ultimately have lo: "2 ^ (bits n - 1) \<le> n"
      using IH(1) by linarith
    have "n < 2 * 2 ^ bits (n div 2)"
      using IH(2) \<open>n < 2 * (n div 2) + 2\<close> by linarith
    then show ?thesis
      using lo by (simp add: b)
  qed
qed

lemma bits_least: "n \<le> 2 ^ bits (n - 1)"
proof (cases "n \<le> 1")
  case True
  then show ?thesis by (cases n) (simp_all add: bits.simps)
next
  case False
  then have "n - 1 < 2 ^ bits (n - 1)"
    using bits_bounds [of "n - 1"] by simp
  then show ?thesis by linarith
qed

lemma bits_greater: "1 < n \<Longrightarrow> 2 ^ (bits (n - 1) - 1) < n"
  using bits_bounds [of "n - 1"] by auto

lemma ilog2_bounds:
  assumes "0 < x"
  shows "2 powi (ilog2 x) \<le> x \<and> x < 2 powi (ilog2 x + 1)"
proof (cases "1 \<le> x")
  case True
  define n where "n = nat \<lfloor>x\<rfloor>"
  have n: "0 < n" "real n \<le> x" "x < real n + 1"
    using True unfolding n_def by (auto simp: le_nat_floor)
  have e: "ilog2 x = int (bits n) - 1"
    using True by (simp add: ilog2_def n_def)
  have bp: "0 < bits n"
    using n(1) by (subst bits.simps) simp
  have "ilog2 x = int (bits n - 1)"
    using bp e by simp
  then have lo: "2 powi (ilog2 x) = (2::real) ^ (bits n - 1)"
    by simp
  have "ilog2 x + 1 = int (bits n)"
    using e by simp
  then have hi: "2 powi (ilog2 x + 1) = (2::real) ^ bits n"
    by simp
  have "(2::real) ^ (bits n - 1) \<le> real n"
    using bits_bounds [OF n(1)] by (metis of_nat_le_iff of_nat_numeral of_nat_power)
  moreover have "real n + 1 \<le> 2 ^ bits n"
  proof -
    have "n + 1 \<le> 2 ^ bits n"
      using bits_bounds [OF n(1)] by simp
    then have "real (n + 1) \<le> real (2 ^ bits n)"
      by (rule of_nat_mono)
    then show ?thesis by simp
  qed
  ultimately show ?thesis
    using n unfolding lo hi by linarith
next
  case False
  define y where "y = 1 / x"
  define m where "m = nat \<lceil>y\<rceil>"
  have y: "1 < y"
    using False assms unfolding y_def by simp
  have m: "1 < m" "y \<le> real m" "real m < y + 1"
    using y unfolding m_def by (auto simp: less_ceiling_iff nat_less_iff) linarith+
  have "nat (\<lceil>1 / x\<rceil> - 1) = m - 1"
    unfolding m_def y_def using y y_def by (simp add: nat_diff_distrib')
  then have e: "ilog2 x = - int (bits (m - 1))"
    using False by (simp add: ilog2_def)
  define k where "k = bits (m - 1)"
  have kp: "0 < k"
    unfolding k_def using m(1) by (subst bits.simps) simp
  have "real m \<le> 2 ^ k"
    using bits_least [of m] unfolding k_def
    by (metis of_nat_le_iff of_nat_numeral of_nat_power)
  then have yle: "y \<le> 2 ^ k"
    using m(2) by linarith
  have "2 ^ (k - 1) < m"
    using bits_greater [OF m(1)] unfolding k_def .
  then have "2 ^ (k - 1) + 1 \<le> m"
    by simp
  then have "real (2 ^ (k - 1) + 1) \<le> real m"
    by (rule of_nat_mono)
  then have ygt: "2 ^ (k - 1) < y"
    using m(3) by simp
  have x: "x = 1 / y" "0 < y"
    using assms unfolding y_def by simp_all
  have lo: "2 powi (ilog2 x) = 1 / (2::real) ^ k"
    unfolding e k_def [symmetric] by (simp add: power_int_minus_divide)
  have "ilog2 x + 1 = - int (k - 1)"
    using kp unfolding e k_def [symmetric] by simp
  then have hi: "2 powi (ilog2 x + 1) = 1 / (2::real) ^ (k - 1)"
    by (simp add: power_int_minus_divide)
  have "1 / (2::real) ^ k \<le> 1 / y"
    using yle x(2) by (simp add: frac_le)
  then have a: "1 / (2::real) ^ k \<le> x"
    by (simp only: x(1))
  have "1 / y < 1 / (2::real) ^ (k - 1)"
    using ygt by (simp add: frac_less2)
  then have b: "x < 1 / (2::real) ^ (k - 1)"
    by (simp only: x(1))
  show ?thesis
    using a b by (simp only: lo hi simp_thms)
qed

lemma rne_bounds: "\<bar>real_of_int (rne z) - z\<bar> \<le> 1 / 2"
  unfolding rne_def Let_def by (auto; linarith)

lemma rne_of_int [simp]: "rne (of_int k) = k"
  by (simp add: rne_def)

lemma rne_mono: "x \<le> y \<Longrightarrow> rne x \<le> rne y"
proof -
  assume xy: "x \<le> y"
  then have f: "\<lfloor>x\<rfloor> \<le> \<lfloor>y\<rfloor>"
    by (rule floor_mono)
  have bx: "\<lfloor>x\<rfloor> \<le> rne x" "rne x \<le> \<lfloor>x\<rfloor> + 1"
    and by': "\<lfloor>y\<rfloor> \<le> rne y" "rne y \<le> \<lfloor>y\<rfloor> + 1"
    unfolding rne_def Let_def by auto
  show ?thesis
  proof (cases "\<lfloor>x\<rfloor> = \<lfloor>y\<rfloor>")
    case False
    then show ?thesis using f bx by' by linarith
  next
    case True
    then show ?thesis
      using xy unfolding rne_def Let_def by (auto; linarith)
  qed
qed



lemma quantum_qexp: "quantum x = 2 powi qexp x"
  by (simp add: quantum_def)

lemma quantum_pos: "0 < quantum x"
  by (simp add: quantum_def)

lemma ilog2_mono:
  assumes "0 < x" and "x \<le> y"
  shows "ilog2 x \<le> ilog2 y"
proof (rule ccontr)
  assume "\<not> ilog2 x \<le> ilog2 y"
  then have "ilog2 y + 1 \<le> ilog2 x"
    by simp
  then have "(2::real) powi (ilog2 y + 1) \<le> 2 powi ilog2 x"
    by (intro power_int_increasing) simp_all
  moreover have "2 powi ilog2 x \<le> x" "y < 2 powi (ilog2 y + 1)"
    using ilog2_bounds [of x] ilog2_bounds [of y] assms by simp_all
  ultimately show False
    using assms(2) by linarith
qed

lemma qexp_mono: "0 < x \<Longrightarrow> x \<le> y \<Longrightarrow> qexp x \<le> qexp y"
  using ilog2_mono [of x y] by (simp add: qexp_def)

lemma rnd_pos_eq: "0 < x \<Longrightarrow> rnd x = of_int (rne (x / quantum x)) * quantum x"
  by (simp add: rnd_def)

lemma rnd_nonneg:
  assumes "0 \<le> x"
  shows "0 \<le> rnd x"
proof (cases "x = 0")
  case True
  then show ?thesis by (simp add: rnd_def)
next
  case False
  then have "0 \<le> x / quantum x"
    using assms quantum_pos [of x] by simp
  then have "rne 0 \<le> rne (x / quantum x)"
    by (rule rne_mono)
  moreover have "rne 0 = 0"
    using rne_of_int [of 0] by simp
  ultimately show ?thesis
    using False quantum_pos [of x] by (simp add: rnd_def)
qed

lemma rnd_upper:
  assumes "0 < x"
  shows "rnd x \<le> 2 powi (qexp x + 53)"
proof -
  have "ilog2 x + 1 \<le> qexp x + 53"
    using assms by (simp add: qexp_def)
  then have "(2::real) powi (ilog2 x + 1) \<le> 2 powi (qexp x + 53)"
    by (intro power_int_increasing) simp_all
  then have "x \<le> 2 powi (qexp x + 53)"
    using ilog2_bounds [OF assms] by linarith
  also have "\<dots> = 2 ^ 53 * quantum x"
    by (simp add: quantum_qexp power_int_add)
  finally have "x / quantum x \<le> 2 ^ 53"
    using quantum_pos [of x] by (simp add: pos_divide_le_eq)
  then have "rne (x / quantum x) \<le> rne (2 ^ 53)"
    by (rule rne_mono)
  moreover have "rne (2 ^ 53) = 2 ^ 53"
    using rne_of_int [of "2 ^ 53"] by simp
  ultimately have "real_of_int (rne (x / quantum x)) \<le> 2 ^ 53"
    by (metis of_int_le_iff of_int_numeral of_int_power)
  then have "rnd x \<le> 2 ^ 53 * quantum x"
    using quantum_pos [of x] assms by (simp add: rnd_pos_eq)
  then show ?thesis
    by (simp add: quantum_qexp power_int_add)
qed

lemma rnd_lower:
  assumes "0 < y" and "- 1074 < qexp y"
  shows "2 powi (qexp y + 52) \<le> rnd y"
proof -
  have e: "qexp y + 52 = ilog2 y"
    using assms by (simp add: qexp_def)
  have "2 powi (qexp y + 52) \<le> y"
    unfolding e using ilog2_bounds [OF assms(1)] by simp
  moreover have "(2::real) powi (qexp y + 52) = 2 ^ 52 * quantum y"
    by (simp add: quantum_qexp power_int_add)
  ultimately have "2 ^ 52 \<le> y / quantum y"
    using quantum_pos [of y] by (simp add: pos_le_divide_eq)
  then have "rne (2 ^ 52) \<le> rne (y / quantum y)"
    by (rule rne_mono)
  moreover have "rne (2 ^ 52) = 2 ^ 52"
    using rne_of_int [of "2 ^ 52"] by simp
  ultimately have "2 ^ 52 \<le> real_of_int (rne (y / quantum y))"
    by (metis of_int_le_iff of_int_numeral of_int_power)
  then have "2 ^ 52 * quantum y \<le> rnd y"
    using quantum_pos [of y] assms by (simp add: rnd_pos_eq)
  then show ?thesis
    by (simp add: quantum_qexp power_int_add)
qed

lemma rnd_mono_nonneg:
  assumes "0 \<le> x" and "x \<le> y"
  shows "rnd x \<le> rnd y"
proof (cases "x = 0")
  case True
  then show ?thesis
    using rnd_nonneg [of y] assms by (simp add: rnd_def)
next
  case False
  then have x: "0 < x" and y: "0 < y"
    using assms by simp_all
  have le: "qexp x \<le> qexp y"
    using x assms(2) by (rule qexp_mono)
  show ?thesis
  proof (cases "qexp x = qexp y")
    case True
    then have q: "quantum y = quantum x"
      by (simp add: quantum_qexp)
    have "x / quantum x \<le> y / quantum x"
      using assms(2) quantum_pos [of x] by (simp add: divide_right_mono)
    then have "rne (x / quantum x) \<le> rne (y / quantum x)"
      by (rule rne_mono)
    then show ?thesis
      using x y quantum_pos [of x] by (simp add: rnd_pos_eq q)
  next
    case False
    then have "qexp x < qexp y"
      using le by simp
    moreover have "- 1074 \<le> qexp x"
      by (simp add: qexp_def)
    ultimately have lt: "qexp x + 53 \<le> qexp y + 52" and n: "- 1074 < qexp y"
      by simp_all
    have "rnd x \<le> 2 powi (qexp x + 53)"
      using x by (rule rnd_upper)
    also have "\<dots> \<le> 2 powi (qexp y + 52)"
      using lt by (intro power_int_increasing) simp_all
    also have "\<dots> \<le> rnd y"
      using y n by (rule rnd_lower)
    finally show ?thesis .
  qed
qed

lemma rnd_error: "\<bar>rnd x - x\<bar> \<le> quantum x / 2"
proof (cases "x = 0")
  case True
  then show ?thesis
    using quantum_pos [of x] by (simp add: rnd_def)
next
  case False
  have "\<bar>real_of_int (rne (x / quantum x)) - x / quantum x\<bar> * quantum x \<le> 1 / 2 * quantum x"
    using rne_bounds [of "x / quantum x"] quantum_pos [of x]
    by (intro mult_right_mono) simp_all
  moreover have "\<bar>real_of_int (rne (x / quantum x)) - x / quantum x\<bar> * quantum x
      = \<bar>real_of_int (rne (x / quantum x)) * quantum x - x\<bar>"
  proof -
    have "real_of_int (rne (x / quantum x)) * quantum x - x
        = (real_of_int (rne (x / quantum x)) - x / quantum x) * quantum x"
      using quantum_pos [of x] by (simp add: left_diff_distrib)
    then have "\<bar>real_of_int (rne (x / quantum x)) * quantum x - x\<bar>
        = \<bar>real_of_int (rne (x / quantum x)) - x / quantum x\<bar> * \<bar>quantum x\<bar>"
      by (simp only: abs_mult)
    then show ?thesis
      using quantum_pos [of x] by simp
  qed
  ultimately show ?thesis
    using False by (simp add: rnd_def)
qed

lemma rnd_0 [simp]: "rnd 0 = 0"
  by (simp add: rnd_def)

lemma rnd_100: "rnd 100 = 100"
  by (simp add: rnd_def quantum_def qexp_def ilog2_def bits.simps power_int_minus_divide rne_def Let_def)

lemma rnd_percent_range:
  assumes "0 \<le> z" and "z \<le> 100"
  shows "0 \<le> rnd z \<and> rnd z \<le> 100"
  using rnd_nonneg [OF assms(1)] rnd_mono_nonneg [OF assms] by (simp add: rnd_100)




lemma round64_not_NaN [simp]: "round64 x \<noteq> NaN"
  by (simp add: round64_def Let_def)

lemma round64_small:
  assumes "\<bar>rnd x\<bar> \<le> 100"
  shows "round64 x = Num (rnd x)"
proof -
  have "(100::real) < 2 ^ 1024"
    by simp
  then show ?thesis
    using assms unfolding round64_def Let_def by (auto simp: abs_le_iff)
qed





lemma percent_of_unit:
  assumes "0 \<le> p" and "p \<le> 1"
  shows "Math_round (js_mul (Num p) (Num 100)) = Num (of_int (pub p))"
    and "0 \<le> pub p" and "pub p \<le> 100"
proof -
  have r: "0 \<le> rnd (p * 100)" "rnd (p * 100) \<le> 100"
    using rnd_percent_range [of "p * 100"] assms by simp_all
  then have "round64 (p * 100) = Num (rnd (p * 100))"
    by (intro round64_small) simp
  then show "Math_round (js_mul (Num p) (Num 100)) = Num (of_int (pub p))"
    by (simp add: pub_def)
  show "0 \<le> pub p" "pub p \<le> 100"
    using r unfolding pub_def by (simp_all add: floor_le_iff le_floor_iff) 
qed

lemma pub_mono:
  assumes "0 \<le> p" and "p \<le> q"
  shows "pub p \<le> pub q"
proof -
  have "rnd (p * 100) \<le> rnd (q * 100)"
    using assms by (intro rnd_mono_nonneg) simp_all
  then show ?thesis
    unfolding pub_def by (intro floor_mono) simp
qed



lemma quantum_le:
  assumes "0 < z" and "z < 2 powi (k + 1)" and "- 1074 \<le> k - 52"
  shows "quantum z \<le> 2 powi (k - 52)"
proof -
  have "ilog2 z \<le> k"
  proof (rule ccontr)
    assume "\<not> ilog2 z \<le> k"
    then have "k + 1 \<le> ilog2 z"
      by simp
    then have "(2::real) powi (k + 1) \<le> 2 powi ilog2 z"
      by (intro power_int_increasing) simp_all
    then show False
      using ilog2_bounds [OF assms(1)] assms(2) by linarith
  qed
  then have "qexp z \<le> k - 52"
    using assms(1,3) by (simp add: qexp_def)
  then show ?thesis
    unfolding quantum_qexp by (intro power_int_increasing) simp_all
qed


lemma rnd_error_percent:
  assumes "0 \<le> z" and "z \<le> 100"
  shows "\<bar>rnd z - z\<bar> \<le> 1 / 2 ^ 47"
proof (cases "z = 0")
  case True
  then show ?thesis by simp
next
  case False
  then have "quantum z \<le> 2 powi (6 - 52)"
    using assms by (intro quantum_le) simp_all
  then have "quantum z \<le> 1 / 2 ^ 46"
    by (simp add: power_int_minus_divide)
  then show ?thesis
    using rnd_error [of z] by simp
qed


lemma pub_error:
  assumes "0 \<le> p" and "p \<le> 1"
  shows "\<bar>real_of_int (pub p) - p * 100\<bar> \<le> 1 / 2 + 1 / 2 ^ 47"
proof -
  have "\<bar>rnd (p * 100) - p * 100\<bar> \<le> 1 / 2 ^ 47"
    using assms by (intro rnd_error_percent) simp_all
  moreover have "\<bar>real_of_int \<lfloor>rnd (p * 100) + 1 / 2\<rfloor> - rnd (p * 100)\<bar> \<le> 1 / 2"
    by linarith
  ultimately show ?thesis
    unfolding pub_def by linarith
qed


lemmas round64_eval = round64_def rnd_def quantum_def qexp_def ilog2_def bits.simps
  power_int_minus_divide rne_def Let_def


text \<open>The rounding agrees with the doubles on ties, subnormal values, overflow and products.\<close>

lemma round64_values:
  "round64 (2 ^ 53 + 1) = Num (2 ^ 53)"
  "round64 (2 ^ 53 + 3) = Num (2 ^ 53 + 4)"
  "js_mul (round64 (11 / 10)) (Num 100) = Num (110 + 1 / 2 ^ 46)"
  "js_mul (round64 (435 / 100)) (Num 100) = Num (435 - 1 / 2 ^ 44)"
  "js_sub (Num 1) (round64 (1 / 10)) = round64 (9 / 10)"
  by (simp_all add: round64_eval)

lemma ilog2_unique:
  assumes "2 powi e \<le> x" and "x < 2 powi (e + 1)"
  shows "ilog2 x = e"
proof -
  have "(0::real) < 2 powi e"
    by simp
  then have x: "0 < x"
    using assms(1) by linarith
  have b: "2 powi ilog2 x \<le> x" "x < 2 powi (ilog2 x + 1)"
    using ilog2_bounds [OF x] by simp_all
  have "\<not> ilog2 x < e"
  proof
    assume "ilog2 x < e"
    then have "(2::real) powi (ilog2 x + 1) \<le> 2 powi e"
      by (intro power_int_increasing) simp_all
    then show False
      using b(2) assms(1) by linarith
  qed
  moreover have "\<not> e < ilog2 x"
  proof
    assume "e < ilog2 x"
    then have "(2::real) powi (e + 1) \<le> 2 powi ilog2 x"
      by (intro power_int_increasing) simp_all
    then show False
      using b(1) assms(2) by linarith
  qed
  ultimately show ?thesis
    by simp
qed

lemma round64_extremes:
  "round64 (2 ^ 1024 - 2 ^ 970) = PosInf"
  "round64 (2 ^ 1024 - 2 ^ 970 - 1) = Num (2 ^ 1024 - 2 ^ 971)"
  "round64 (- (2 ^ 1024)) = NegInf"
  "round64 (1 / 2 ^ 1075) = Num 0"
  "round64 (3 / 2 ^ 1075) = Num (1 / 2 ^ 1073)"
proof -
  have a: "ilog2 (2 ^ 1024 - 2 ^ 970) = 1023" "ilog2 (2 ^ 1024 - 2 ^ 970 - 1) = 1023"
    "ilog2 (2 ^ 1024) = 1024"
    by (rule ilog2_unique; simp)+
  have b: "ilog2 (1 / 2 ^ 1075) = - 1075" "ilog2 (3 / 2 ^ 1075) = - 1074"
    by (rule ilog2_unique; simp add: power_int_minus_divide)+
  show "round64 (2 ^ 1024 - 2 ^ 970) = PosInf"
    "round64 (2 ^ 1024 - 2 ^ 970 - 1) = Num (2 ^ 1024 - 2 ^ 971)"
    "round64 (- (2 ^ 1024)) = NegInf"
    using a
    by (simp_all add: round64_def rnd_def quantum_def qexp_def rne_def Let_def)
  show "round64 (1 / 2 ^ 1075) = Num 0" "round64 (3 / 2 ^ 1075) = Num (1 / 2 ^ 1073)"
    using b
    by (simp_all add: round64_def rnd_def quantum_def qexp_def rne_def Let_def
        power_int_minus_divide)
qed

lemma score_special:
  "scoreToPercent (Some PosInf) = Percent (Num 0)"
  "scoreToPercent (Some NegInf) = Percent (Num 100)"
  "scoreToPercent (Some NaN) = Percent NaN"
  "scoreToPercent (Some (Num (- 5))) = Percent (Num 100)"
  "scoreToPercent (Some (Num 7)) = Percent (Num 0)"
  by (simp_all add: scoreToPercent_def round64_eval)

lemma percent_special:
  "Math_round (js_mul NaN (Num 100)) = NaN"
  "Math_round (js_mul PosInf (Num 100)) = PosInf"
  "Math_round (js_mul (Num (- 1 / 4)) (Num 100)) = Num (- 25)"
  "Math_round (js_mul (Num (1 / 8)) (Num 100)) = Num 13"
  by (simp_all add: round64_eval)




lemma percent_0015: "Math_round (js_mul (round64 (3 / 200)) (Num 100)) = Num 2"
  by (simp add: round64_eval)

lemma percent_fifth: "Math_round (js_mul (round64 (1 / 5)) (Num 100)) = Num 20"
  by (simp add: round64_eval)

lemma percent_three_tenths: "Math_round (js_mul (round64 (3 / 10)) (Num 100)) = Num 30"
  by (simp add: round64_eval)

lemma round64_50: "round64 50 = Num 50"
  by (simp add: round64_eval)

lemma round64_100: "round64 100 = Num 100"
  by (simp add: round64_eval)

lemma round64_150: "round64 150 = Num 150"
  by (simp add: round64_eval)

lemma round64_fifth: "round64 (1 / 5) = Num (3602879701896397 / 2 ^ 54)"
  by (simp add: round64_eval)

subsection \<open>The model\<close>

lemmas handler_defs = suspend_def finish_def logger_def mount_def init_settle_def unmount_def
  terminate_settle_def runOcr_begin_def runOcr_resume_def queryBackend_begin_def network_error_def
  call_queryBackend_def call_runOcr_def handleCapture_def handleFileChange_def reader_onload_def

lemma ready_state_eq:
  "ready_state = init_state\<lparr>isWorkerReady := True, workerRef := Some Worker,
      console := [js ''Tesseract worker ready'']\<rparr>"
  by (simp add: ready_state_def exec_def init_state_def mount_def init_settle_def)

lemma trim_Nil_iff: "trim t = [] \<longleftrightarrow> list_all is_ws t"
proof (cases "dropWhile is_ws t")
  case Nil
  have "trim t = []"
    by (simp add: trim_def Nil)
  moreover have "list_all is_ws t"
    using Nil dropWhile_eq_Nil_conv [of is_ws t] by (simp add: list_all_iff)
  ultimately show ?thesis
    by simp
next
  case (Cons a as)
  then have "\<not> is_ws a"
    using hd_dropWhile [of is_ws t] by simp
  moreover have "\<not> list_all is_ws t"
    using Cons dropWhile_eq_Nil_conv [of is_ws t] by (simp add: list_all_iff)
  ultimately show ?thesis
    using Cons by (auto simp: trim_def dropWhile_eq_Nil_conv)
qed

lemma dropWhile_all_Nil:
  assumes "list_all P (dropWhile P xs)"
  shows "dropWhile P xs = []"
proof (rule ccontr)
  assume ne: "dropWhile P xs \<noteq> []"
  then have "\<not> P (hd (dropWhile P xs))"
    by (rule hd_dropWhile)
  moreover have "hd (dropWhile P xs) \<in> set (dropWhile P xs)"
    using ne by (rule hd_in_set)
  ultimately show False
    using assms unfolding list_all_iff by blast
qed

lemma trim_blank_iff: "list_all is_ws (trim t) \<longleftrightarrow> list_all is_ws t"
proof
  assume "list_all is_ws (trim t)"
  then have "list_all is_ws (dropWhile is_ws (rev (dropWhile is_ws t)))"
    by (simp only: trim_def list_all_rev)
  then have "dropWhile is_ws (rev (dropWhile is_ws t)) = []"
    by (rule dropWhile_all_Nil)
  then have "trim t = []"
    by (simp only: trim_def rev.simps)
  then show "list_all is_ws t"
    by (simp only: trim_Nil_iff)
next
  assume "list_all is_ws t"
  then have "trim t = []"
    by (simp only: trim_Nil_iff)
  moreover have "list_all is_ws []"
    by simp
  ultimately show "list_all is_ws (trim t)"
    by (simp only:)
qed

lemma exec_Nil [simp]: "exec s [] = s"
  by (simp add: exec_def)

lemma exec_Cons [simp]: "exec s (e # es) = exec (step s e) es"
  by (simp add: exec_def)

lemma exec_append: "exec s (xs @ ys) = exec (exec s xs) ys"
  by (simp add: exec_def)

subsection \<open>One step of a job\<close>

lemma start_job:
  assumes "starts trig img s"
  shows "exec s (start_events trig img (nextJob s)) =
     s\<lparr>imageSrc := Some img, loadingOcr := True, ocrText := [], ocrProgress := Num 0,
       recognizeCalls := recognizeCalls s @ [img], nextJob := nextJob s + 1,
       pending := (pending s)(nextJob s \<mapsto> AwaitRecognize)\<rparr>"
  using assms by (cases trig) (auto simp: starts_def handler_defs Let_def)

lemma recognized_blank:
  assumes "pending s j = Some AwaitRecognize" and "list_all is_ws (extracted_text r)"
  shows "step s (Settle j (Recognized r)) =
     s\<lparr>ocrText := [], loadingOcr := False, matches := [],
       warning := Some (js ''No text found by OCR.''), pending := (pending s)(j := None)\<rparr>"
proof -
  have "(case r of Data (Some t) \<Rightarrow> if t \<noteq> [] then trim t else [] | Data None \<Rightarrow> [] | NoData \<Rightarrow> []) = []"
    using assms(2) by (auto simp: extracted_text_def trim_Nil_iff split: ocr_result.splits option.splits)
  then show ?thesis
    using assms(1) by (simp add: handler_defs Let_def)
qed

lemma recognized_text:
  assumes "pending s j = Some AwaitRecognize" and "\<not> list_all is_ws (extracted_text r)"
  shows "step s (Settle j (Recognized r)) =
     s\<lparr>ocrText := trim (extracted_text r), loadingOcr := False, matches := [], warning := None,
       fetchCalls := fetchCalls s @ [trim (extracted_text r)],
       pending := (pending s)(j \<mapsto> AwaitFetch)\<rparr>"
proof -
  obtain t where r: "r = Data (Some t)" and t: "\<not> list_all is_ws t"
    using assms(2) by (auto simp: extracted_text_def split: ocr_result.splits option.splits)
  have ne: "t \<noteq> []" "trim t \<noteq> []" "trim (trim t) \<noteq> []"
    using t by (auto simp: trim_Nil_iff trim_blank_iff)
  show ?thesis
    using assms(1) ne by (simp add: r extracted_text_def handler_defs Let_def)
qed

lemma recognize_rejected:
  assumes "pending s j = Some AwaitRecognize"
  shows "step s (Settle j Rejected) =
     s\<lparr>console := console s @ [js ''OCR error:''], loadingOcr := False, matches := [],
       warning := Some (js ''No text found by OCR.''), pending := (pending s)(j := None)\<rparr>"
  using assms by (simp add: handler_defs Let_def)

lemma fetch_rejected:
  assumes "pending s j = Some AwaitFetch"
  shows "step s (Settle j Rejected) =
     s\<lparr>console := console s @ [js ''Network error:''],
       warning := Some (js ''Network error when contacting backend.''),
       pending := (pending s)(j := None)\<rparr>"
  using assms by (simp add: handler_defs)

lemma fetch_response:
  assumes "pending s j = Some AwaitFetch"
  shows "step s (Settle j (Response ok)) =
     s\<lparr>pending := (pending s)(j \<mapsto> (if ok then AwaitJson else AwaitText))\<rparr>"
  using assms by (simp add: handler_defs)

lemma body_text:
  assumes "pending s j = Some AwaitText"
  shows "step s (Settle j (BodyText b)) =
     s\<lparr>console := console s @ [js ''Backend error:''],
       warning := Some (js ''Server error when searching. Check backend.''),
       pending := (pending s)(j := None)\<rparr>"
  using assms by (simp add: handler_defs)

lemma body_text_rejected:
  assumes "pending s j = Some AwaitText"
  shows "step s (Settle j Rejected) =
     s\<lparr>console := console s @ [js ''Network error:''],
       warning := Some (js ''Network error when contacting backend.''),
       pending := (pending s)(j := None)\<rparr>"
  using assms by (simp add: handler_defs)

lemma body_json:
  assumes "pending s j = Some AwaitJson"
  shows "step s (Settle j (BodyJson (JObj d))) =
     s\<lparr>matches := (case data_matches d of Some ms \<Rightarrow> ms | None \<Rightarrow> []),
       warning := (case data_warning d of Some w \<Rightarrow> if w \<noteq> [] then Some w else warning s
                   | None \<Rightarrow> warning s),
       pending := (pending s)(j := None)\<rparr>"
  using assms by (simp add: handler_defs Let_def split: option.splits)

lemma logger_only_progress:
  "step s (Logger m) = s\<lparr>ocrProgress := ocrProgress (step s (Logger m))\<rparr>"
  by (simp add: logger_def split: option.splits)

lemma loggers_only_progress:
  "exec s (map Logger ms) = s\<lparr>ocrProgress := ocrProgress (exec s (map Logger ms))\<rparr>"
proof (induction ms arbitrary: s)
  case Nil
  show ?case by simp
next
  case (Cons m ms)
  let ?s1 = "step s (Logger m)"
  have "exec s (map Logger (m # ms)) = exec ?s1 (map Logger ms)"
    by (simp del: step.simps)
  also have "\<dots> = ?s1\<lparr>ocrProgress := ocrProgress (exec ?s1 (map Logger ms))\<rparr>"
    by (rule Cons.IH)
  also have "\<dots> = s\<lparr>ocrProgress := ocrProgress (exec ?s1 (map Logger ms))\<rparr>"
    by (subst logger_only_progress) simp
  finally show ?case
    by (simp del: step.simps)
qed

subsection \<open>What a step leaves alone\<close>

lemma logger_step:
  "step s (Logger m) =
     (case progress m of
        Some p \<Rightarrow>
          if workerRef s \<noteq> None \<and> status m = js ''recognizing text''
          then s\<lparr>ocrProgress := Math_round (js_mul p (Num 100))\<rparr> else s
      | None \<Rightarrow> s)"
  by (simp add: logger_def split: option.splits)

lemma queryBackend_resume_frame:
  assumes "queryBackend_resume k v s = (k', s')"
  shows "ocrProgress s' = ocrProgress s \<and> workerRef s' = workerRef s \<and>
         unhandled s' = unhandled s \<and> terminateCalls s' = terminateCalls s \<and>
         (k \<noteq> AwaitReader \<longrightarrow> k' \<noteq> Some AwaitReader)"
  using assms
  by (induction k v s rule: queryBackend_resume.induct)
     (auto simp: network_error_def Let_def split: if_splits option.splits)

lemma call_queryBackend_frame:
  "ocrProgress (call_queryBackend j t s) = ocrProgress s \<and>
   workerRef (call_queryBackend j t s) = workerRef s \<and>
   unhandled (call_queryBackend j t s) = unhandled s \<and>
   terminateCalls (call_queryBackend j t s) = terminateCalls s \<and>
   pending (call_queryBackend j t s) j \<noteq> Some AwaitReader"
  by (simp add: call_queryBackend_def queryBackend_begin_def suspend_def finish_def Let_def)

lemma settle_keeps_progress:
  assumes "pending s j \<noteq> Some AwaitReader"
  shows "ocrProgress (step s (Settle j v)) = ocrProgress s
    \<and> pending (step s (Settle j v)) j \<noteq> Some AwaitReader
    \<and> workerRef (step s (Settle j v)) = workerRef s"
proof (cases "pending s j")
  case None
  then show ?thesis by simp
next
  case (Some k)
  with assms have k: "k \<noteq> AwaitReader" by simp
  show ?thesis
  proof (cases "k = AwaitRecognize")
    case True
    then show ?thesis
      using Some call_queryBackend_frame
      by (cases v) (simp_all add: runOcr_resume_def Let_def split: prod.splits)
  next
    case False
    obtain k' s' where q: "queryBackend_resume k v s = (k', s')"
      by force
    have "resume j k v s = (case k' of Some k'' \<Rightarrow> suspend j k'' s' | None \<Rightarrow> finish j s')"
      using k False q by (cases k) simp_all
    then show ?thesis
      using Some queryBackend_resume_frame [OF q] k
      by (auto simp: suspend_def finish_def split: option.splits)
  qed
qed

lemma js_le_trans: "js_le a b \<Longrightarrow> js_le b c \<Longrightarrow> js_le a c"
  by (cases a; cases b; cases c) simp_all

lemma unit_Num:
  assumes "js_le (Num 0) p" and "js_le p (Num 1)"
  shows "\<exists>r. p = Num r \<and> 0 \<le> r \<and> r \<le> 1"
  using assms by (cases p) simp_all

lemma progress_run:
  assumes "workerRef s \<noteq> None" and "pending s j \<noteq> Some AwaitReader"
    and "list_all (job_event j) evs" and "sorted_wrt js_le (logged evs)"
    and "list_all (\<lambda>p. js_le (Num 0) p \<and> js_le p (Num 1)) (logged evs)"
    and "list_all (\<lambda>p. js_le (ocrProgress s) (Math_round (js_mul p (Num 100)))) (logged evs)"
    and "js_le (Num 0) (ocrProgress s)" and "js_le (ocrProgress s) (Num 100)"
  shows "sorted_wrt js_le (ocrProgress s # map ocrProgress (states s evs))
    \<and> list_all (\<lambda>c. js_le (Num 0) c \<and> js_le c (Num 100)) (map ocrProgress (states s evs))"
  using assms
proof (induction evs arbitrary: s)
  case Nil
  then show ?case by simp
next
  case (Cons e es)
  let ?s' = "step s e"
  from Cons.prems(3) have je: "job_event j e" and jes: "list_all (job_event j) es"
    by simp_all
  have inv: "workerRef ?s' \<noteq> None \<and> pending ?s' j \<noteq> Some AwaitReader
      \<and> js_le (ocrProgress s) (ocrProgress ?s')
      \<and> js_le (Num 0) (ocrProgress ?s') \<and> js_le (ocrProgress ?s') (Num 100)
      \<and> sorted_wrt js_le (logged es)
      \<and> list_all (\<lambda>p. js_le (Num 0) p \<and> js_le p (Num 1)) (logged es)
      \<and> list_all (\<lambda>p. js_le (ocrProgress ?s') (Math_round (js_mul p (Num 100)))) (logged es)"
  proof (cases e)
    case (Settle i v)
    with je have i: "i = j" by simp
    have "js_le (ocrProgress s) (ocrProgress s)"
      using Cons.prems(7) by (cases "ocrProgress s") simp_all
    then show ?thesis
      using settle_keeps_progress [OF Cons.prems(2), of v] Cons.prems
      by (simp add: Settle i del: step.simps)
  next
    case (Logger m)
    show ?thesis
    proof (cases "status m = js ''recognizing text'' \<and> progress m \<noteq> None")
      case False
      then have "?s' = s" "logged (e # es) = logged es"
        by (auto simp: Logger logger_step split: option.splits simp del: step.simps)
      moreover have "js_le (ocrProgress s) (ocrProgress s)"
        using Cons.prems(7) by (cases "ocrProgress s") simp_all
      ultimately show ?thesis
        using Cons.prems by simp
    next
      case True
      then obtain p where p: "progress m = Some p" and st: "status m = js ''recognizing text''"
        by auto
      have s': "?s' = s\<lparr>ocrProgress := Math_round (js_mul p (Num 100))\<rparr>"
        using Cons.prems(1) p st by (simp add: Logger logger_step del: step.simps)
      have lg: "logged (e # es) = p # logged es"
        using p st by (simp add: Logger)
      have pu: "js_le (Num 0) p" "js_le p (Num 1)"
        and up: "js_le (ocrProgress s) (Math_round (js_mul p (Num 100)))"
        and srt: "sorted_wrt js_le (logged es)" and ge: "\<forall>q\<in>set (logged es). js_le p q"
        and rest: "list_all (\<lambda>p. js_le (Num 0) p \<and> js_le p (Num 1)) (logged es)"
        using Cons.prems(4,5,6) unfolding lg by (auto simp: list_all_iff)
      obtain r where r: "p = Num r" "0 \<le> r" "r \<le> 1"
        using unit_Num [OF pu] by blast
      have pr: "Math_round (js_mul p (Num 100)) = Num (of_int (pub r))"
        "0 \<le> pub r" "pub r \<le> 100"
        unfolding r(1) using percent_of_unit [OF r(2,3)] by simp_all
      have later: "list_all (\<lambda>q. js_le (Math_round (js_mul p (Num 100)))
          (Math_round (js_mul q (Num 100)))) (logged es)"
        unfolding list_all_iff
      proof
        fix q
        assume q: "q \<in> set (logged es)"
        then have "js_le (Num 0) q" "js_le q (Num 1)" "js_le p q"
          using rest ge by (auto simp: list_all_iff)
        then obtain r' where r': "q = Num r'" "0 \<le> r'" "r' \<le> 1" "r \<le> r'"
          using unit_Num [of q] r(1) by auto
        have "pub r \<le> pub r'"
          using r(2) r'(4) by (rule pub_mono)
        then show "js_le (Math_round (js_mul p (Num 100))) (Math_round (js_mul q (Num 100)))"
          unfolding pr(1) r'(1) using percent_of_unit(1) [OF r'(2,3)] by simp
      qed
      show ?thesis
        using Cons.prems(1,2) up srt rest later pr(2,3)
        by (subst (1 2 3 4 5 6) s') (simp add: pr(1))
    qed
  qed (use je in simp_all)
  have IH: "sorted_wrt js_le (ocrProgress ?s' # map ocrProgress (states ?s' es))
    \<and> list_all (\<lambda>c. js_le (Num 0) c \<and> js_le c (Num 100)) (map ocrProgress (states ?s' es))"
    using inv jes by (intro Cons.IH) simp_all
  have "\<forall>x\<in>set (map ocrProgress (states ?s' es)). js_le (ocrProgress s) x"
    using IH inv js_le_trans [of "ocrProgress s" "ocrProgress ?s'"] by auto
  then show ?case
    using IH inv by (simp del: step.simps)
qed

lemma resume_frame:
  "workerRef (resume j k v s) = workerRef s \<and> terminateCalls (resume j k v s) = terminateCalls s
   \<and> unhandled (resume j k v s) = unhandled s"
proof (cases "k = AwaitReader \<or> k = AwaitRecognize")
  case True
  then show ?thesis
    using call_queryBackend_frame
    by (cases v)
       (auto simp: reader_onload_def call_runOcr_def runOcr_begin_def runOcr_resume_def
          suspend_def finish_def Let_def split: prod.splits)
next
  case False
  obtain k' s' where q: "queryBackend_resume k v s = (k', s')"
    by force
  have "resume j k v s = (case k' of Some k'' \<Rightarrow> suspend j k'' s' | None \<Rightarrow> finish j s')"
    using False q by (cases k) simp_all
  then show ?thesis
    using queryBackend_resume_frame [OF q]
    by (auto simp: suspend_def finish_def split: option.splits)
qed

lemma handleCapture_frame:
  "workerRef (handleCapture img s) = workerRef s
   \<and> terminateCalls (handleCapture img s) = terminateCalls s
   \<and> unhandled (handleCapture img s) = unhandled s"
  using call_queryBackend_frame
  by (auto simp: handleCapture_def call_runOcr_def runOcr_begin_def suspend_def Let_def
      split: option.splits)

lemma step_terminateCalls:
  assumes "e \<noteq> Unmount"
  shows "terminateCalls (step s e) = terminateCalls s"
  using assms resume_frame handleCapture_frame
  by (cases e)
     (auto simp: mount_def init_settle_def terminate_settle_def logger_def handleFileChange_def
        suspend_def Let_def split: option.splits init_cont.splits)

lemma step_workerRef:
  assumes "workerRef s \<noteq> None"
  shows "workerRef (step s e) \<noteq> None"
  using assms resume_frame handleCapture_frame
  by (cases e)
     (auto simp: mount_def init_settle_def unmount_def terminate_settle_def logger_def
        handleFileChange_def suspend_def Let_def split: option.splits init_cont.splits)

lemma exec_terminateCalls:
  assumes "list_all (\<lambda>e. e \<noteq> Unmount) evs"
  shows "terminateCalls (exec s evs) = terminateCalls s"
  using assms
proof (induction evs arbitrary: s)
  case Nil
  show ?case by simp
next
  case (Cons e es)
  then have "terminateCalls (exec (step s e) es) = terminateCalls (step s e)"
    by simp
  then show ?case
    using Cons.prems by (simp add: step_terminateCalls del: step.simps)
qed

lemma exec_workerRef:
  assumes "workerRef s \<noteq> None"
  shows "workerRef (exec s evs) \<noteq> None"
  using assms
proof (induction evs arbitrary: s)
  case Nil
  then show ?case by simp
next
  case (Cons e es)
  from Cons.prems have "workerRef (step s e) \<noteq> None"
    by (rule step_workerRef)
  then have "workerRef (exec (step s e) es) \<noteq> None"
    by (rule Cons.IH)
  then show ?case
    by (simp del: step.simps)
qed

lemma loggers_progress_eq:
  assumes "workerRef a \<noteq> None" and "workerRef b \<noteq> None" and "ocrProgress a = ocrProgress b"
  shows "ocrProgress (exec a (map Logger ms)) = ocrProgress (exec b (map Logger ms))"
  using assms
proof (induction ms arbitrary: a b)
  case Nil
  then show ?case by simp
next
  case (Cons m ms)
  have "workerRef (step a (Logger m)) \<noteq> None" "workerRef (step b (Logger m)) \<noteq> None"
    "ocrProgress (step a (Logger m)) = ocrProgress (step b (Logger m))"
    using Cons.prems by (auto simp: logger_step split: option.splits simp del: step.simps)
  then have "ocrProgress (exec (step a (Logger m)) (map Logger ms))
      = ocrProgress (exec (step b (Logger m)) (map Logger ms))"
    by (rule Cons.IH)
  then show ?case
    by (simp del: step.simps)
qed

lemma queryBackend_resume_json:
  "queryBackend_resume AwaitJson (BodyJson x) s =
     (case x of
        JNull \<Rightarrow> (None, network_error s)
      | JObj d \<Rightarrow>
          (None, case data_warning d of
                   Some w \<Rightarrow>
                     if w \<noteq> []
                     then s\<lparr>matches := (case data_matches d of Some ms \<Rightarrow> ms | None \<Rightarrow> []),
                            warning := Some w\<rparr>
                     else s\<lparr>matches := (case data_matches d of Some ms \<Rightarrow> ms | None \<Rightarrow> [])\<rparr>
                 | None \<Rightarrow> s\<lparr>matches := (case data_matches d of Some ms \<Rightarrow> ms | None \<Rightarrow> [])\<rparr>))"
  by (cases x) (simp_all add: Let_def split: option.splits)

lemma settle_sim:
  assumes "published a = published b" and "pending a i = pending b j"
    and "workerRef a \<noteq> None" and "workerRef b \<noteq> None"
  shows "published (step a (Settle i v)) = published (step b (Settle j v))
    \<and> pending (step a (Settle i v)) i = pending (step b (Settle j v)) j
    \<and> workerRef (step a (Settle i v)) \<noteq> None \<and> workerRef (step b (Settle j v)) \<noteq> None"
proof (cases "pending a i")
  case None
  then show ?thesis
    using assms by simp
next
  case (Some k)
  then have pb: "pending b j = Some k"
    using assms(2) by simp
  show ?thesis
    using Some pb assms(1,3,4)
    by (cases k; cases v)
       (auto simp: handler_defs published_def Let_def queryBackend_resume_json
          split: option.splits json_body.splits ocr_result.splits)
qed

lemma settles_sim:
  assumes "published a = published b" and "pending a i = pending b j"
    and "workerRef a \<noteq> None" and "workerRef b \<noteq> None"
  shows "published (exec a (map (Settle i) vs)) = published (exec b (map (Settle j) vs))"
  using assms
proof (induction vs arbitrary: a b)
  case Nil
  then show ?case by simp
next
  case (Cons v vs)
  have "published (exec (step a (Settle i v)) (map (Settle i) vs))
      = published (exec (step b (Settle j v)) (map (Settle j) vs))"
    using settle_sim [OF Cons.prems, of v] by (intro Cons.IH) simp_all
  then show ?case
    by (simp del: step.simps)
qed

subsection \<open>The example runs\<close>

lemma awaiting_state_eq:
  "awaiting_state = ready_state\<lparr>imageSrc := Some (js ''img1''), loadingOcr := True,
     recognizeCalls := [js ''img1''], nextJob := 1, pending := Map.empty(0 \<mapsto> AwaitRecognize)\<rparr>"
  using start_job [of Capture "js ''img1''" ready_state]
  by (simp add: awaiting_state_def starts_def ready_state_eq init_state_def js_def)

lemma awaiting_state_pending: "pending awaiting_state 0 = Some AwaitRecognize"
  by (simp add: awaiting_state_eq)

lemma paracetamol_text_nonblank: "\<not> list_all is_ws (extracted_text paracetamol_text)"
  by (simp add: paracetamol_text_def extracted_text_def js_def is_ws_def)

lemma paracetamol_text_trim: "trim (extracted_text paracetamol_text) = js ''PARACETAMOL 500mg''"
  by (simp add: paracetamol_text_def extracted_text_def js_def is_ws_def trim_def)

lemma ibuprofen_text_nonblank: "\<not> list_all is_ws (extracted_text ibuprofen_text)"
  by (simp add: ibuprofen_text_def extracted_text_def js_def is_ws_def)

lemma ibuprofen_text_trim: "trim (extracted_text ibuprofen_text) = js ''IBUPROFEN 200mg''"
  by (simp add: ibuprofen_text_def extracted_text_def js_def is_ws_def trim_def)

lemma overlap_state_eq:
  "overlap_state = ready_state\<lparr>imageSrc := Some (js ''img2''), ocrText := js ''PARACETAMOL 500mg'',
     matches := [paracetamol], recognizeCalls := [js ''img1'', js ''img2''],
     fetchCalls := [js ''PARACETAMOL 500mg''], nextJob := 2,
     pending := Map.empty(0 \<mapsto> AwaitRecognize)\<rparr>"
proof -
  have i: "js ''img1'' \<noteq> []" "js ''img2'' \<noteq> []"
    by (simp_all add: js_def)
  have r: "workerRef ready_state \<noteq> None" "isWorkerReady ready_state"
    by (simp_all add: ready_state_eq init_state_def)
  show ?thesis
    unfolding overlap_state_def
    using start_job [of Capture] i r
    by (simp add: starts_def recognized_text [OF _ paracetamol_text_nonblank] paracetamol_text_trim
        fetch_response body_json ready_state_eq init_state_def fun_upd_twist
        del: step.simps)
qed

lemma stale_state_eq:
  "stale_state = ready_state\<lparr>imageSrc := Some (js ''img2''), ocrText := js ''IBUPROFEN 200mg'',
     matches := [ibuprofen], recognizeCalls := [js ''img1'', js ''img2''],
     fetchCalls := [js ''PARACETAMOL 500mg'', js ''IBUPROFEN 200mg''], nextJob := 2,
     pending := Map.empty\<rparr>"
  by (simp add: stale_state_def overlap_state_eq late_events_def
      recognized_text [OF _ ibuprofen_text_nonblank]
      ibuprofen_text_trim fetch_response body_json ready_state_eq init_state_def
      del: step.simps)

section \<open>A capture that yields no image\<close>

text \<open>
  C10. When \<^verbatim>\<open>getScreenshot()\<close> returns null (or another falsy value, the empty string),
  \<^verbatim>\<open>handleCapture\<close> alerts and returns: the state is the old one but for the alert. Whether
  the click reaches the handler or not, \<^verbatim>\<open>imageSrc\<close>, \<^verbatim>\<open>ocrText\<close>, \<^verbatim>\<open>ocrProgress\<close>,
  \<^verbatim>\<open>loadingOcr\<close>, \<^verbatim>\<open>matches\<close> and \<^verbatim>\<open>warning\<close> are unchanged, no \<^verbatim>\<open>recognize\<close> call and no
  request are made, and no job is created.
\<close>

theorem handleCapture_no_image:
  assumes "img = None \<or> img = Some []"
  shows "handleCapture img s = s\<lparr>alerts := alerts s @ [js ''Could not capture image from camera.'']\<rparr>
    \<and> (let s' = step s (ClickCapture img)
       in imageSrc s' = imageSrc s \<and> ocrText s' = ocrText s \<and> ocrProgress s' = ocrProgress s \<and>
          loadingOcr s' = loadingOcr s \<and> matches s' = matches s \<and> warning s' = warning s \<and>
          recognizeCalls s' = recognizeCalls s \<and> fetchCalls s' = fetchCalls s \<and>
          pending s' = pending s \<and> nextJob s' = nextJob s)"
  using assms by (auto simp: handleCapture_def Let_def)

theorem handleCapture_no_image_witness:
  "step ready_state (ClickCapture None) =
     ready_state\<lparr>alerts := [js ''Could not capture image from camera.'']\<rparr>
   \<and> recognizeCalls (step ready_state (ClickCapture None)) = []
   \<and> imageSrc (step ready_state (ClickCapture None)) = None"
  using handleCapture_no_image [of None ready_state]
  by (simp add: ready_state_eq init_state_def)

section \<open>Empty text\<close>

text \<open>
  C3. When the text the engine extracted is empty or consists of white space only (or is
  missing), the job that awaits the recognition ends with this step: no search request is
  issued, the published outcome is \<^verbatim>\<open>matches = []\<close> and the warning
  \<^verbatim>\<open>'No text found by OCR.'\<close>, and nothing that settles later can resume the job.
  \<^verbatim>\<open>queryBackend\<close> itself, called with such a text, returns before the \<^verbatim>\<open>fetch\<close>.
\<close>

theorem blank_text_skips_search:
  assumes "pending s j = Some AwaitRecognize" and "list_all is_ws (extracted_text r)"
  shows "(let s' = step s (Settle j (Recognized r))
          in fetchCalls s' = fetchCalls s \<and> matches s' = [] \<and>
             warning s' = Some (js ''No text found by OCR.'') \<and> pending s' j = None \<and>
             (\<forall>v. step s' (Settle j v) = s'))
       \<and> queryBackend_begin (extracted_text r) s =
            (False, s\<lparr>matches := [], warning := Some (js ''No text found by OCR.'')\<rparr>)"
proof -
  have "trim (extracted_text r) = []"
    using assms(2) by (simp only: trim_Nil_iff)
  then have "queryBackend_begin (extracted_text r) s =
            (False, s\<lparr>matches := [], warning := Some (js ''No text found by OCR.'')\<rparr>)"
    by (simp add: queryBackend_begin_def)
  then show ?thesis
    by (simp add: recognized_blank [OF assms] Let_def del: step.simps) (simp add: finish_def)
qed

theorem blank_text_skips_search_witness:
  "pending awaiting_state 0 = Some AwaitRecognize
   \<and> list_all is_ws (extracted_text (Data (Some [32, 10, 9])))
   \<and> fetchCalls (step awaiting_state (Settle 0 (Recognized (Data (Some [32, 10, 9]))))) = []
   \<and> matches (step awaiting_state (Settle 0 (Recognized (Data (Some [32, 10, 9]))))) = []
   \<and> warning (step awaiting_state (Settle 0 (Recognized (Data (Some [32, 10, 9])))))
       = Some (js ''No text found by OCR.'')"
proof -
  have ws: "list_all is_ws (extracted_text (Data (Some [32, 10, 9])))"
    by (simp add: extracted_text_def is_ws_def)
  show ?thesis
    using blank_text_skips_search [OF awaiting_state_pending ws] ws
    by (simp add: Let_def awaiting_state_eq ready_state_eq init_state_def)
qed

section \<open>Teardown\<close>

text \<open>
  C8. From the mount on, whatever happens before the unmount (also with a job in flight),
  \<^verbatim>\<open>terminate\<close> has not been called; the unmount calls it once and changes nothing else
  (no promise is left rejected without a handler); whatever settles afterwards, the late
  callbacks of a job or the \<^verbatim>\<open>terminate\<close> call itself, the count stays one. The outcome of
  the awaited \<^verbatim>\<open>terminate\<close> call, a failure too, leaves every state as it is.
\<close>

theorem terminate_once_on_unmount:
  assumes "list_all (\<lambda>e. e \<noteq> Unmount) evs" and "list_all (\<lambda>e. e \<noteq> Unmount) late"
  shows "(let s1 = exec init_state (Mount # evs);
              s2 = step s1 Unmount;
              s3 = exec s2 late
          in terminateCalls s1 = 0 \<and> s2 = s1\<lparr>terminateCalls := 1\<rparr> \<and> terminateCalls s3 = 1)
    \<and> step t (TerminateSettle ok) = t"
proof -
  define s1 where "s1 = exec init_state (Mount # evs)"
  have w: "workerRef s1 \<noteq> None"
    unfolding s1_def by (simp add: exec_workerRef mount_def)
  have c1: "terminateCalls s1 = 0"
    unfolding s1_def using assms(1)
    by (simp add: exec_terminateCalls mount_def init_state_def)
  have s2: "step s1 Unmount = s1\<lparr>terminateCalls := 1\<rparr>"
    using w c1 by (auto simp: unmount_def)
  have "terminateCalls (exec (step s1 Unmount) late) = terminateCalls (step s1 Unmount)"
    using assms(2) by (rule exec_terminateCalls)
  then have c3: "terminateCalls (exec (step s1 Unmount) late) = 1"
    by (simp add: s2 del: step.simps)
  have ts: "step t (TerminateSettle ok) = t"
    by (simp add: terminate_settle_def)
  show ?thesis
    using c1 s2 c3 ts
    by (simp add: Let_def s1_def [symmetric] del: step.simps exec_Cons)
qed

theorem terminate_once_on_unmount_witness:
  "list_all (\<lambda>e. e \<noteq> Unmount) busy_events
   \<and> pending (exec init_state (Mount # busy_events)) 0 = Some AwaitRecognize
   \<and> terminateCalls (step (exec init_state (Mount # busy_events)) Unmount) = 1
   \<and> unhandled (exec (step (exec init_state (Mount # busy_events)) Unmount)
        [TerminateSettle False, Settle 0 Rejected]) = 0
   \<and> terminateCalls (exec (step (exec init_state (Mount # busy_events)) Unmount)
        [TerminateSettle False, Settle 0 Rejected]) = 1"
proof -
  have b: "list_all (\<lambda>e. e \<noteq> Unmount) busy_events"
    by (simp add: busy_events_def)
  have l: "list_all (\<lambda>e. e \<noteq> Unmount) [TerminateSettle False, Settle 0 Rejected]"
    by simp
  have e: "exec init_state (Mount # busy_events) = awaiting_state"
    by (simp add: busy_events_def awaiting_state_def ready_state_def del: step.simps)
  have u: "unhandled (exec (step awaiting_state Unmount) [TerminateSettle False, Settle 0 Rejected]) = 0"
    by (simp add: awaiting_state_eq ready_state_eq init_state_def handler_defs Let_def)
  show ?thesis
    using terminate_once_on_unmount [OF b l, where t = init_state and ok = False] b u
    by (auto simp add: Let_def e awaiting_state_pending simp del: step.simps exec_Cons)
qed

section \<open>Starting before the engine is ready\<close>

text \<open>
  C2 fails on the upload path. While \<^verbatim>\<open>initWorker\<close> still awaits \<^verbatim>\<open>worker.load()\<close>, so
  \<^verbatim>\<open>isWorkerReady\<close> is false, a click on the capture button is refused (the button is
  disabled), but picking a file starts a job: \<^verbatim>\<open>runOcr\<close> tests \<^verbatim>\<open>workerRef.current\<close>, which
  holds the worker since the mount, so no alert is shown, the preview and the loading flag
  are set and \<^verbatim>\<open>recognize\<close> is called on the worker that is not initialised.
\<close>

theorem upload_while_initializing:
  "\<not> isWorkerReady initializing_state
   \<and> initAwait initializing_state = Some AwaitLoad
   \<and> step initializing_state (ClickCapture (Some (js ''img1''))) = initializing_state
   \<and> recognizeCalls (exec initializing_state upload_events) = [js ''img1'']
   \<and> alerts (exec initializing_state upload_events) = []
   \<and> loadingOcr (exec initializing_state upload_events)
   \<and> imageSrc (exec initializing_state upload_events) = Some (js ''img1'')
   \<and> pending (exec initializing_state upload_events) 0 = Some AwaitRecognize"
  by (simp add: initializing_state_def upload_events_def init_state_def handler_defs Let_def)

section \<open>The confidence shown for a match\<close>



section \<open>A failing recognition\<close>

text \<open>
  C4, as stated, fails for the progress: \<^verbatim>\<open>runOcr\<close> resets \<^verbatim>\<open>ocrProgress\<close> when a job
  starts and not in its \<^verbatim>\<open>catch\<close> block, so a job that fails after the engine reported 50%
  leaves 50 published.
\<close>

theorem failed_recognition_keeps_progress:
  "ocrProgress (exec ready_state
      [ClickCapture (Some (js ''img1'')), Logger half_done, Settle 0 Rejected]) = Num 50
   \<and> \<not> loadingOcr (exec ready_state
      [ClickCapture (Some (js ''img1'')), Logger half_done, Settle 0 Rejected])"
proof -
  have "exec ready_state [ClickCapture (Some (js ''img1''))] = awaiting_state"
    by (simp add: awaiting_state_def)
  then show ?thesis
    by (simp add: logger_step half_done_def round64_50 recognize_rejected awaiting_state_eq
        ready_state_eq init_state_def del: step.simps)
qed

text \<open>
  C4, amended. For every job whose \<^verbatim>\<open>recognize\<close> call rejects, in whatever state the
  rejection arrives: it is caught (the console gets the error, no promise is left rejected
  without a handler), the loading flag is cleared, the extracted text is treated as empty,
  so no search request is made and the matches \<open>[]\<close> and the warning
  \<^verbatim>\<open>'No text found by OCR.'\<close> are published, and the job has ended; the rejection itself
  changes nothing else, neither the published text nor the progress. For a job that ran
  from its start with only log messages of the engine in between, the published text is
  then empty (it was cleared at the start), and the progress is the one published before
  the rejection.
\<close>

theorem failed_recognition_outcome:
  "(pending s j = Some AwaitRecognize \<longrightarrow>
      step s (Settle j Rejected) =
        s\<lparr>console := console s @ [js ''OCR error:''], loadingOcr := False, matches := [],
          warning := Some (js ''No text found by OCR.''), pending := (pending s)(j := None)\<rparr>)
   \<and> (starts trig img t \<longrightarrow>
        (let t1 = exec t (start_events trig img (nextJob t) @ map Logger ms);
             t' = step t1 (Settle (nextJob t) Rejected)
         in pending t1 (nextJob t) = Some AwaitRecognize \<and> ocrText t' = [] \<and>
            ocrProgress t' = ocrProgress t1 \<and> \<not> loadingOcr t' \<and>
            recognizeCalls t' = recognizeCalls t @ [img] \<and> fetchCalls t' = fetchCalls t \<and>
            matches t' = [] \<and> warning t' = Some (js ''No text found by OCR.'') \<and>
            unhandled t' = unhandled t \<and> pending t' (nextJob t) = None))"
proof (intro conjI impI)
  assume "pending s j = Some AwaitRecognize"
  then show "step s (Settle j Rejected) =
        s\<lparr>console := console s @ [js ''OCR error:''], loadingOcr := False, matches := [],
          warning := Some (js ''No text found by OCR.''), pending := (pending s)(j := None)\<rparr>"
    by (rule recognize_rejected)
next
  assume st: "starts trig img t"
  define t0 where "t0 = exec t (start_events trig img (nextJob t))"
  define t1 where "t1 = exec t0 (map Logger ms)"
  have t0: "t0 = t\<lparr>imageSrc := Some img, loadingOcr := True, ocrText := [], ocrProgress := Num 0,
       recognizeCalls := recognizeCalls t @ [img], nextJob := nextJob t + 1,
       pending := (pending t)(nextJob t \<mapsto> AwaitRecognize)\<rparr>"
    unfolding t0_def by (rule start_job [OF st])
  have t1: "t1 = t0\<lparr>ocrProgress := ocrProgress t1\<rparr>"
    unfolding t1_def by (rule loggers_only_progress)
  have p: "pending t1 (nextJob t) = Some AwaitRecognize"
    by (subst t1) (simp add: t0)
  have "step t1 (Settle (nextJob t) Rejected) =
     t1\<lparr>console := console t1 @ [js ''OCR error:''], loadingOcr := False, matches := [],
       warning := Some (js ''No text found by OCR.''),
       pending := (pending t1)(nextJob t := None)\<rparr>"
    by (rule recognize_rejected [OF p])
  moreover have "ocrText t1 = []" "recognizeCalls t1 = recognizeCalls t @ [img]"
    "fetchCalls t1 = fetchCalls t" "unhandled t1 = unhandled t"
    by (subst t1, simp add: t0)+
  ultimately show "let t1 = exec t (start_events trig img (nextJob t) @ map Logger ms);
             t' = step t1 (Settle (nextJob t) Rejected)
         in pending t1 (nextJob t) = Some AwaitRecognize \<and> ocrText t' = [] \<and>
            ocrProgress t' = ocrProgress t1 \<and> \<not> loadingOcr t' \<and>
            recognizeCalls t' = recognizeCalls t @ [img] \<and> fetchCalls t' = fetchCalls t \<and>
            matches t' = [] \<and> warning t' = Some (js ''No text found by OCR.'') \<and>
            unhandled t' = unhandled t \<and> pending t' (nextJob t) = None"
    using p
    by (simp add: exec_append Let_def t0_def [symmetric] t1_def [symmetric] del: step.simps)
qed

theorem failed_recognition_outcome_witness:
  "pending overlap_state 0 = Some AwaitRecognize
   \<and> ocrText (step overlap_state (Settle 0 Rejected)) = js ''PARACETAMOL 500mg''
   \<and> matches (step overlap_state (Settle 0 Rejected)) = []
   \<and> warning (step overlap_state (Settle 0 Rejected)) = Some (js ''No text found by OCR.'')
   \<and> starts (Upload (UploadFile (js ''label.jpg''))) (js ''img1'') initializing_state
   \<and> ocrText (step (exec initializing_state
        (start_events (Upload (UploadFile (js ''label.jpg''))) (js ''img1'') 0 @ map Logger [half_done]))
        (Settle 0 Rejected)) = []
   \<and> ocrProgress (step (exec initializing_state
        (start_events (Upload (UploadFile (js ''label.jpg''))) (js ''img1'') 0 @ map Logger [half_done]))
        (Settle 0 Rejected)) = Num 50
   \<and> unhandled (step (exec initializing_state
        (start_events (Upload (UploadFile (js ''label.jpg''))) (js ''img1'') 0 @ map Logger [half_done]))
        (Settle 0 Rejected)) = 0"
proof -
  have o: "pending overlap_state 0 = Some AwaitRecognize"
    "ocrText overlap_state = js ''PARACETAMOL 500mg''"
    by (simp_all add: overlap_state_eq)
  have i: "starts (Upload (UploadFile (js ''label.jpg''))) (js ''img1'') initializing_state"
    "nextJob initializing_state = 0" "unhandled initializing_state = 0"
    "workerRef initializing_state = Some Worker"
    by (simp_all add: starts_def initializing_state_def init_state_def mount_def)
  have pr: "ocrProgress (exec initializing_state
        (start_events (Upload (UploadFile (js ''label.jpg''))) (js ''img1'') 0 @ map Logger [half_done]))
      = Num 50"
    using start_job [OF i(1)] i(4)
    by (simp add: exec_append i(2) logger_step half_done_def round64_50
        del: step.simps start_events.simps)
  show ?thesis
    using failed_recognition_outcome [of overlap_state 0
        "Upload (UploadFile (js ''label.jpg''))" "js ''img1''" initializing_state "[half_done]"]
      o i pr
    by (auto simp add: Let_def simp del: step.simps exec_Cons start_events.simps)
qed

section \<open>A failing search\<close>

text \<open>
  C5, as stated, fails when the callbacks of two jobs cross: \<^verbatim>\<open>queryBackend\<close> clears the
  matches only when it starts (line 80), and its failure paths set the warning alone. When
  the reply to another job's search arrives between this job's recognition result and the
  rejection of its \<^verbatim>\<open>fetch\<close>, the other job's matches stay published next to the network
  warning.
\<close>

theorem failed_search_keeps_other_matches:
  "ocrText (exec ready_state crossed_events) = js ''PARACETAMOL 500mg''
   \<and> matches (exec ready_state crossed_events) = [ibuprofen]
   \<and> warning (exec ready_state crossed_events) = Some (js ''Network error when contacting backend.'')
   \<and> pending (exec ready_state crossed_events) 1 = None"
proof -
  have i: "starts Capture (js ''img1'') ready_state" "js ''img2'' \<noteq> []"
    by (simp_all add: starts_def ready_state_eq init_state_def js_def)
  show ?thesis
    unfolding crossed_events_def
    using start_job [of Capture] i
    by (simp add: starts_def recognized_text [OF _ paracetamol_text_nonblank]
        recognized_text [OF _ ibuprofen_text_nonblank] paracetamol_text_trim
        fetch_response body_json fetch_rejected ready_state_eq init_state_def
        del: step.simps)
qed

text \<open>
  C5, amended. For every job whose search fails, in whatever state the failure arrives: a
  rejected \<^verbatim>\<open>fetch\<close> publishes the network warning and ends the job; a response that is not
  ok makes the job read the body, after which the server warning is published, or the
  network warning when the body cannot be read, and the job ends. These steps change
  nothing else but the console: the matches, the recognised text and the loading flag stay
  as they are, and no promise is left rejected without a handler. For a job whose
  recognition gave a text that is not blank and whose callbacks ran with no callback of
  another job in between, the matches are then empty (cleared when \<^verbatim>\<open>queryBackend\<close>
  started), the recognised text is published and the loading flag is off.
\<close>

theorem search_failure_is_soft:
  "(pending s j = Some AwaitFetch \<longrightarrow>
      step s (Settle j Rejected) =
        s\<lparr>console := console s @ [js ''Network error:''],
          warning := Some (js ''Network error when contacting backend.''),
          pending := (pending s)(j := None)\<rparr>
      \<and> step s (Settle j (Response False)) = s\<lparr>pending := (pending s)(j \<mapsto> AwaitText)\<rparr>)
   \<and> (pending u k = Some AwaitText \<longrightarrow>
      step u (Settle k (BodyText b)) =
        u\<lparr>console := console u @ [js ''Backend error:''],
          warning := Some (js ''Server error when searching. Check backend.''),
          pending := (pending u)(k := None)\<rparr>
      \<and> step u (Settle k Rejected) =
        u\<lparr>console := console u @ [js ''Network error:''],
          warning := Some (js ''Network error when contacting backend.''),
          pending := (pending u)(k := None)\<rparr>)
   \<and> (pending t i = Some AwaitRecognize \<and> \<not> list_all is_ws (extracted_text r) \<longrightarrow>
      (let t' = exec t [Settle i (Recognized r), Settle i Rejected]
       in matches t' = [] \<and> warning t' = Some (js ''Network error when contacting backend.'') \<and>
          ocrText t' = trim (extracted_text r) \<and> \<not> loadingOcr t' \<and> pending t' i = None \<and>
          unhandled t' = unhandled t \<and> fetchCalls t' = fetchCalls t @ [trim (extracted_text r)])
      \<and> (let t' = exec t [Settle i (Recognized r), Settle i (Response False), Settle i (BodyText b)]
       in matches t' = [] \<and> warning t' = Some (js ''Server error when searching. Check backend.'') \<and>
          ocrText t' = trim (extracted_text r) \<and> \<not> loadingOcr t' \<and> pending t' i = None \<and>
          unhandled t' = unhandled t \<and> fetchCalls t' = fetchCalls t @ [trim (extracted_text r)])
      \<and> (let t' = exec t [Settle i (Recognized r), Settle i (Response False), Settle i Rejected]
       in matches t' = [] \<and> warning t' = Some (js ''Network error when contacting backend.'') \<and>
          ocrText t' = trim (extracted_text r) \<and> \<not> loadingOcr t' \<and> pending t' i = None \<and>
          unhandled t' = unhandled t \<and> fetchCalls t' = fetchCalls t @ [trim (extracted_text r)]))"
proof (intro conjI impI; (elim conjE)?)
  assume "pending s j = Some AwaitFetch"
  then show "step s (Settle j Rejected) =
        s\<lparr>console := console s @ [js ''Network error:''],
          warning := Some (js ''Network error when contacting backend.''),
          pending := (pending s)(j := None)\<rparr>"
    and "step s (Settle j (Response False)) = s\<lparr>pending := (pending s)(j \<mapsto> AwaitText)\<rparr>"
    by (simp_all add: fetch_rejected fetch_response del: step.simps)
next
  assume "pending u k = Some AwaitText"
  then show "step u (Settle k (BodyText b)) =
        u\<lparr>console := console u @ [js ''Backend error:''],
          warning := Some (js ''Server error when searching. Check backend.''),
          pending := (pending u)(k := None)\<rparr>"
    and "step u (Settle k Rejected) =
        u\<lparr>console := console u @ [js ''Network error:''],
          warning := Some (js ''Network error when contacting backend.''),
          pending := (pending u)(k := None)\<rparr>"
    by (simp_all add: body_text body_text_rejected del: step.simps)
next
  assume a: "pending t i = Some AwaitRecognize" "\<not> list_all is_ws (extracted_text r)"
  show "let t' = exec t [Settle i (Recognized r), Settle i Rejected]
       in matches t' = [] \<and> warning t' = Some (js ''Network error when contacting backend.'') \<and>
          ocrText t' = trim (extracted_text r) \<and> \<not> loadingOcr t' \<and> pending t' i = None \<and>
          unhandled t' = unhandled t \<and> fetchCalls t' = fetchCalls t @ [trim (extracted_text r)]"
    and "let t' = exec t [Settle i (Recognized r), Settle i (Response False), Settle i (BodyText b)]
       in matches t' = [] \<and> warning t' = Some (js ''Server error when searching. Check backend.'') \<and>
          ocrText t' = trim (extracted_text r) \<and> \<not> loadingOcr t' \<and> pending t' i = None \<and>
          unhandled t' = unhandled t \<and> fetchCalls t' = fetchCalls t @ [trim (extracted_text r)]"
    and "let t' = exec t [Settle i (Recognized r), Settle i (Response False), Settle i Rejected]
       in matches t' = [] \<and> warning t' = Some (js ''Network error when contacting backend.'') \<and>
          ocrText t' = trim (extracted_text r) \<and> \<not> loadingOcr t' \<and> pending t' i = None \<and>
          unhandled t' = unhandled t \<and> fetchCalls t' = fetchCalls t @ [trim (extracted_text r)]"
    by (simp_all add: recognized_text [OF a] fetch_rejected fetch_response body_text
        body_text_rejected Let_def del: step.simps)
qed

theorem search_failure_is_soft_witness:
  "pending awaiting_state 0 = Some AwaitRecognize
   \<and> matches (exec awaiting_state [Settle 0 (Recognized paracetamol_text), Settle 0 (Response False),
        Settle 0 (BodyText (js ''Internal Server Error''))]) = []
   \<and> warning (exec awaiting_state [Settle 0 (Recognized paracetamol_text), Settle 0 (Response False),
        Settle 0 (BodyText (js ''Internal Server Error''))])
       = Some (js ''Server error when searching. Check backend.'')
   \<and> ocrText (exec awaiting_state [Settle 0 (Recognized paracetamol_text), Settle 0 (Response False),
        Settle 0 (BodyText (js ''Internal Server Error''))]) = js ''PARACETAMOL 500mg''
   \<and> warning (exec awaiting_state [Settle 0 (Recognized paracetamol_text), Settle 0 Rejected])
       = Some (js ''Network error when contacting backend.'')
   \<and> pending (step awaiting_state (Settle 0 (Recognized paracetamol_text))) 0 = Some AwaitFetch
   \<and> matches (step (step awaiting_state (Settle 0 (Recognized paracetamol_text))) (Settle 0 Rejected))
       = []
   \<and> pending (step (step awaiting_state (Settle 0 (Recognized paracetamol_text)))
        (Settle 0 (Response False))) 0 = Some AwaitText
   \<and> warning (step (step (step awaiting_state (Settle 0 (Recognized paracetamol_text)))
        (Settle 0 (Response False))) (Settle 0 Rejected))
       = Some (js ''Network error when contacting backend.'')"
proof -
  have f: "pending (step awaiting_state (Settle 0 (Recognized paracetamol_text))) 0 = Some AwaitFetch"
    "matches (step awaiting_state (Settle 0 (Recognized paracetamol_text))) = []"
    by (simp_all add: recognized_text [OF awaiting_state_pending paracetamol_text_nonblank]
        del: step.simps)
  have g: "pending (step (step awaiting_state (Settle 0 (Recognized paracetamol_text)))
        (Settle 0 (Response False))) 0 = Some AwaitText"
    by (simp add: recognized_text [OF awaiting_state_pending paracetamol_text_nonblank]
        fetch_response del: step.simps)
  show ?thesis
    using search_failure_is_soft [of "step awaiting_state (Settle 0 (Recognized paracetamol_text))" 0
        "step (step awaiting_state (Settle 0 (Recognized paracetamol_text))) (Settle 0 (Response False))"
        0 "js ''Internal Server Error''" awaiting_state 0 paracetamol_text]
      f g awaiting_state_pending paracetamol_text_nonblank
    by (auto simp add: Let_def paracetamol_text_trim simp del: step.simps exec_Cons)
qed

section \<open>A successful search\<close>

text \<open>
  C6, as stated, fails for a reply whose \<^verbatim>\<open>warning\<close> field is present and is the empty
  string: \<^verbatim>\<open>if (data.warning)\<close> treats it as absent, and the published warning is null, not
  the empty string.
\<close>

theorem blank_warning_dropped:
  "data_warning blank_warning_reply = Some []
   \<and> warning (exec awaiting_state [Settle 0 (Recognized paracetamol_text), Settle 0 (Response True),
        Settle 0 (BodyJson (JObj blank_warning_reply))]) = None
   \<and> matches (exec awaiting_state [Settle 0 (Recognized paracetamol_text), Settle 0 (Response True),
        Settle 0 (BodyJson (JObj blank_warning_reply))]) = [paracetamol]"
  by (simp add: recognized_text [OF awaiting_state_pending paracetamol_text_nonblank]
      fetch_response body_json blank_warning_reply_def del: step.simps)

text \<open>
  C6, amended. For every parsed body of an ok response, in whatever state it arrives at
  the job that awaits it: a missing \<^verbatim>\<open>matches\<close> field is published as the empty sequence
  and a present one as it is; a \<^verbatim>\<open>warning\<close> field that is present and not the empty string
  is published verbatim, also next to matches; with no \<^verbatim>\<open>warning\<close> field, or an empty one,
  the published warning is left as it was; nothing else changes and the job ends. For a job
  whose callbacks ran with no callback of another job in between, the warning left as it
  was is null.
\<close>

theorem search_success_outcome:
  "(pending s j = Some AwaitJson \<longrightarrow>
      step s (Settle j (BodyJson (JObj d))) =
        s\<lparr>matches := (case data_matches d of Some ms \<Rightarrow> ms | None \<Rightarrow> []),
          warning := (case data_warning d of
                        Some w \<Rightarrow> if w \<noteq> [] then Some w else warning s
                      | None \<Rightarrow> warning s),
          pending := (pending s)(j := None)\<rparr>)
   \<and> (pending t i = Some AwaitRecognize \<and> \<not> list_all is_ws (extracted_text r) \<longrightarrow>
      (let t' = exec t [Settle i (Recognized r), Settle i (Response True),
                        Settle i (BodyJson (JObj d))]
       in matches t' = (case data_matches d of Some ms \<Rightarrow> ms | None \<Rightarrow> []) \<and>
          warning t' = (case data_warning d of
                          Some w \<Rightarrow> if w \<noteq> [] then Some w else None
                        | None \<Rightarrow> None) \<and>
          ocrText t' = trim (extracted_text r) \<and> \<not> loadingOcr t' \<and> pending t' i = None \<and>
          fetchCalls t' = fetchCalls t @ [trim (extracted_text r)]))"
proof (intro conjI impI; (elim conjE)?)
  assume "pending s j = Some AwaitJson"
  then show "step s (Settle j (BodyJson (JObj d))) =
        s\<lparr>matches := (case data_matches d of Some ms \<Rightarrow> ms | None \<Rightarrow> []),
          warning := (case data_warning d of
                        Some w \<Rightarrow> if w \<noteq> [] then Some w else warning s
                      | None \<Rightarrow> warning s),
          pending := (pending s)(j := None)\<rparr>"
    by (rule body_json)
next
  assume a: "pending t i = Some AwaitRecognize" "\<not> list_all is_ws (extracted_text r)"
  show "let t' = exec t [Settle i (Recognized r), Settle i (Response True),
                        Settle i (BodyJson (JObj d))]
       in matches t' = (case data_matches d of Some ms \<Rightarrow> ms | None \<Rightarrow> []) \<and>
          warning t' = (case data_warning d of
                          Some w \<Rightarrow> if w \<noteq> [] then Some w else None
                        | None \<Rightarrow> None) \<and>
          ocrText t' = trim (extracted_text r) \<and> \<not> loadingOcr t' \<and> pending t' i = None \<and>
          fetchCalls t' = fetchCalls t @ [trim (extracted_text r)]"
    by (simp add: recognized_text [OF a] fetch_response body_json Let_def del: step.simps
        split: option.splits)
qed

theorem search_success_outcome_witness:
  "pending awaiting_state 0 = Some AwaitRecognize
   \<and> matches (exec awaiting_state [Settle 0 (Recognized paracetamol_text), Settle 0 (Response True),
        Settle 0 (BodyJson (JObj \<lparr>data_matches = Some [paracetamol],
          data_warning = Some (js ''Low confidence'')\<rparr>))]) = [paracetamol]
   \<and> warning (exec awaiting_state [Settle 0 (Recognized paracetamol_text), Settle 0 (Response True),
        Settle 0 (BodyJson (JObj \<lparr>data_matches = Some [paracetamol],
          data_warning = Some (js ''Low confidence'')\<rparr>))]) = Some (js ''Low confidence'')
   \<and> pending (exec awaiting_state [Settle 0 (Recognized paracetamol_text), Settle 0 (Response True)]) 0
       = Some AwaitJson
   \<and> matches (step (exec awaiting_state [Settle 0 (Recognized paracetamol_text), Settle 0 (Response True)])
        (Settle 0 (BodyJson (JObj \<lparr>data_matches = None, data_warning = None\<rparr>)))) = []"
proof -
  have p: "pending (exec awaiting_state [Settle 0 (Recognized paracetamol_text), Settle 0 (Response True)]) 0
       = Some AwaitJson"
    by (simp add: recognized_text [OF awaiting_state_pending paracetamol_text_nonblank]
        fetch_response del: step.simps)
  show ?thesis
    using search_success_outcome [of
        "exec awaiting_state [Settle 0 (Recognized paracetamol_text), Settle 0 (Response True)]" 0
        "\<lparr>data_matches = None, data_warning = None\<rparr>" awaiting_state 0 paracetamol_text]
      search_success_outcome [of
        "exec awaiting_state [Settle 0 (Recognized paracetamol_text), Settle 0 (Response True)]" 0
        "\<lparr>data_matches = Some [paracetamol], data_warning = Some (js ''Low confidence'')\<rparr>"
        awaiting_state 0 paracetamol_text]
      p awaiting_state_pending paracetamol_text_nonblank
    by (auto simp add: Let_def js_def simp del: step.simps exec_Cons)
qed

section \<open>Progress\<close>

text \<open>
  C7, as stated, fails: the logger publishes what the engine reports, with no check of the
  order or of the range. When the engine reports 1, then 0.3, then 1.5 for the recognition
  stage of one job, the published percentages are 0, 100, 30 and 150.
\<close>

theorem progress_not_enforced:
  "list_all (job_event 0) erratic_events
   \<and> map ocrProgress (awaiting_state # states awaiting_state erratic_events)
       = [Num 0, Num 100, Num 30, Num 150]"
proof -
  have w: "workerRef awaiting_state \<noteq> None" "ocrProgress awaiting_state = Num 0"
    by (simp_all add: awaiting_state_eq ready_state_eq init_state_def)
  have "map ocrProgress (states awaiting_state erratic_events) = [Num 100, Num 30, Num 150]"
    using w(1)
    by (simp add: erratic_events_def logger_step percent_three_tenths round64_100 round64_150
        del: step.simps)
  then show ?thesis
    using w(2) by (simp add: erratic_events_def)
qed

text \<open>
  C7, amended. For a single job, started by a capture or an upload and followed only by log
  messages of the engine and the settling of its own awaits: when the engine's progress
  values for the recognition stage lie in the range 0 to 1 and arrive in non-decreasing
  order, the published percentages, from the 0 published at the start on, are
  non-decreasing and lie in the range 0 to 100. A log message changes the published
  progress only when its status is \<^verbatim>\<open>'recognizing text'\<close> and its progress is a number; the
  new value is the double product of the progress and 100, rounded to the nearest integer,
  which for a progress \<open>r\<close> between 0 and 1 is an integer from 0 to 100 within a half plus
  two to the -47 of \<open>r * 100\<close>; every other message leaves the state as it is.
\<close>

theorem progress_monotone_bounded:
  assumes "starts trig img s"
    and "list_all (job_event (nextJob s)) evs"
    and "sorted_wrt js_le (logged evs)"
    and "list_all (\<lambda>p. js_le (Num 0) p \<and> js_le p (Num 1)) (logged evs)"
  shows "(let s0 = exec s (start_events trig img (nextJob s));
              ps = map ocrProgress (s0 # states s0 evs)
          in sorted_wrt js_le ps \<and> list_all (\<lambda>c. js_le (Num 0) c \<and> js_le c (Num 100)) ps)
    \<and> step t (Logger m) =
         (case progress m of
            Some p \<Rightarrow>
              if workerRef t \<noteq> None \<and> status m = js ''recognizing text''
              then t\<lparr>ocrProgress := Math_round (js_mul p (Num 100))\<rparr> else t
          | None \<Rightarrow> t)
    \<and> (0 \<le> r \<and> r \<le> 1 \<longrightarrow>
         (\<exists>n. Math_round (js_mul (Num r) (Num 100)) = Num (of_int n) \<and> 0 \<le> n \<and> n \<le> 100 \<and>
              \<bar>real_of_int n - r * 100\<bar> \<le> 1 / 2 + 1 / 2 ^ 47))"
proof -
  define s0 where "s0 = exec s (start_events trig img (nextJob s))"
  have s0: "s0 = s\<lparr>imageSrc := Some img, loadingOcr := True, ocrText := [], ocrProgress := Num 0,
       recognizeCalls := recognizeCalls s @ [img], nextJob := nextJob s + 1,
       pending := (pending s)(nextJob s \<mapsto> AwaitRecognize)\<rparr>"
    unfolding s0_def by (rule start_job [OF assms(1)])
  have f: "workerRef s0 \<noteq> None" "pending s0 (nextJob s) \<noteq> Some AwaitReader"
    "ocrProgress s0 = Num 0"
    using assms(1) by (simp_all add: s0 starts_def)
  have "list_all (\<lambda>p. js_le (ocrProgress s0) (Math_round (js_mul p (Num 100)))) (logged evs)"
    unfolding list_all_iff f(3)
  proof
    fix p
    assume "p \<in> set (logged evs)"
    then have "js_le (Num 0) p" "js_le p (Num 1)"
      using assms(4) by (auto simp: list_all_iff)
    then obtain q where q: "p = Num q" "0 \<le> q" "q \<le> 1"
      using unit_Num by blast
    show "js_le (Num 0) (Math_round (js_mul p (Num 100)))"
      unfolding q(1) using percent_of_unit [OF q(2,3)] by simp
  qed
  then have "sorted_wrt js_le (ocrProgress s0 # map ocrProgress (states s0 evs))
    \<and> list_all (\<lambda>c. js_le (Num 0) c \<and> js_le c (Num 100)) (map ocrProgress (states s0 evs))"
    using f assms(2,3,4) by (intro progress_run) simp_all
  then have run: "let s0 = exec s (start_events trig img (nextJob s));
              ps = map ocrProgress (s0 # states s0 evs)
          in sorted_wrt js_le ps \<and> list_all (\<lambda>c. js_le (Num 0) c \<and> js_le c (Num 100)) ps"
    using f(3) by (simp add: Let_def s0_def [symmetric] del: step.simps)
  have lg: "step t (Logger m) =
         (case progress m of
            Some p \<Rightarrow>
              if workerRef t \<noteq> None \<and> status m = js ''recognizing text''
              then t\<lparr>ocrProgress := Math_round (js_mul p (Num 100))\<rparr> else t
          | None \<Rightarrow> t)"
    by (rule logger_step)
  have rd: "0 \<le> r \<and> r \<le> 1 \<longrightarrow>
         (\<exists>n. Math_round (js_mul (Num r) (Num 100)) = Num (of_int n) \<and> 0 \<le> n \<and> n \<le> 100 \<and>
              \<bar>real_of_int n - r * 100\<bar> \<le> 1 / 2 + 1 / 2 ^ 47)"
    using percent_of_unit [of r] pub_error [of r] by blast
  show ?thesis
    using run lg rd by (simp only: simp_thms)
qed

theorem progress_monotone_bounded_witness:
  "starts Capture (js ''img1'') ready_state
   \<and> list_all (job_event 0) progress_events
   \<and> logged progress_events = [round64 (1 / 5), Num (1 / 2)]
   \<and> sorted_wrt js_le (logged progress_events)
   \<and> map ocrProgress (awaiting_state # states awaiting_state progress_events)
       = [Num 0, Num 0, Num 20, Num 50, Num 50]
   \<and> Math_round (js_mul (round64 (3 / 200)) (Num 100)) = Num 2
   \<and> Math_round (js_mul (Num (1 / 2)) (Num 100)) = Num 50"
proof -
  have r: "starts Capture (js ''img1'') ready_state" "nextJob ready_state = 0"
    by (simp_all add: starts_def ready_state_eq init_state_def js_def)
  have l: "logged progress_events = [round64 (1 / 5), Num (1 / 2)]"
    by (simp add: progress_events_def half_done_def js_def)
  have j: "list_all (job_event (nextJob ready_state)) progress_events"
    by (simp add: progress_events_def r(2))
  have srt: "sorted_wrt js_le (logged progress_events)"
    "list_all (\<lambda>p. js_le (Num 0) p \<and> js_le p (Num 1)) (logged progress_events)"
    by (simp_all add: l round64_fifth)
  have a: "exec ready_state (start_events Capture (js ''img1'') (nextJob ready_state)) = awaiting_state"
    by (simp add: awaiting_state_def del: step.simps)
  have w: "workerRef awaiting_state \<noteq> None" "ocrProgress awaiting_state = Num 0"
    by (simp_all add: awaiting_state_eq ready_state_eq init_state_def)
  have st: "map ocrProgress (states awaiting_state progress_events) = [Num 0, Num 20, Num 50, Num 50]"
    using w
    by (simp add: progress_events_def half_done_def logger_step js_def percent_fifth round64_50
        recognized_text [OF _ paracetamol_text_nonblank] awaiting_state_pending
        del: step.simps)
  show ?thesis
    using progress_monotone_bounded [OF r(1) j srt, where r = "1 / 2"]
      j l st w(2) r(1) srt(1) percent_0015
    by (simp add: a r(2) round64_50 Let_def del: step.simps)
qed

section \<open>Overlapping jobs\<close>

text \<open>
  C1, as stated, fails: no handler compares a job number before it publishes. After two
  captures in a row, when the second job has published its text and matches and the
  recognition of the first job settles afterwards, the first job's text replaces the
  second's and the matches are cleared; the first job's search result then replaces the
  matches.
\<close>

theorem superseded_job_overwrites:
  "nextJob overlap_state = 2
   \<and> pending overlap_state 1 = None
   \<and> pending overlap_state 0 = Some AwaitRecognize
   \<and> ocrText overlap_state = js ''PARACETAMOL 500mg''
   \<and> matches overlap_state = [paracetamol]
   \<and> ocrText (step overlap_state (Settle 0 (Recognized ibuprofen_text))) = js ''IBUPROFEN 200mg''
   \<and> matches (step overlap_state (Settle 0 (Recognized ibuprofen_text))) = []
   \<and> ocrText (exec overlap_state late_events) = js ''IBUPROFEN 200mg''
   \<and> matches (exec overlap_state late_events) = [ibuprofen]"
  by (simp add: overlap_state_eq late_events_def recognized_text [OF _ ibuprofen_text_nonblank]
      ibuprofen_text_trim fetch_response body_json del: step.simps)

text \<open>
  C1, amended. When a job runs from its start through the settling of its recognition and
  of any later await of its own, with only log messages of the engine and no callback of
  another job in between, the published text, progress, matches and warning after it depend
  on that job alone: they are the same from any two states in which the trigger starts a
  recognition, whatever earlier jobs have left there, and for either way of starting the
  job.
\<close>

theorem latest_job_alone_decides:
  assumes "starts trig img s" and "starts trig' img t" and "recognition_outcome v"
  shows "published (exec s (start_events trig img (nextJob s) @ map Logger ms
                            @ map (Settle (nextJob s)) (v # vs)))
       = published (exec t (start_events trig' img (nextJob t) @ map Logger ms
                            @ map (Settle (nextJob t)) (v # vs)))"
proof -
  define s0 where "s0 = exec s (start_events trig img (nextJob s))"
  define t0 where "t0 = exec t (start_events trig' img (nextJob t))"
  define s1 where "s1 = exec s0 (map Logger ms)"
  define t1 where "t1 = exec t0 (map Logger ms)"
  have ws: "workerRef s \<noteq> None" and wt: "workerRef t \<noteq> None"
    using assms(1,2) by (simp_all add: starts_def)
  have s0: "s0 = s\<lparr>imageSrc := Some img, loadingOcr := True, ocrText := [], ocrProgress := Num 0,
       recognizeCalls := recognizeCalls s @ [img], nextJob := nextJob s + 1,
       pending := (pending s)(nextJob s \<mapsto> AwaitRecognize)\<rparr>"
    unfolding s0_def by (rule start_job [OF assms(1)])
  have t0: "t0 = t\<lparr>imageSrc := Some img, loadingOcr := True, ocrText := [], ocrProgress := Num 0,
       recognizeCalls := recognizeCalls t @ [img], nextJob := nextJob t + 1,
       pending := (pending t)(nextJob t \<mapsto> AwaitRecognize)\<rparr>"
    unfolding t0_def by (rule start_job [OF assms(2)])
  have s1: "s1 = s0\<lparr>ocrProgress := ocrProgress s1\<rparr>"
    unfolding s1_def by (rule loggers_only_progress)
  have t1: "t1 = t0\<lparr>ocrProgress := ocrProgress t1\<rparr>"
    unfolding t1_def by (rule loggers_only_progress)
  have w0: "workerRef s0 \<noteq> None" "workerRef t0 \<noteq> None" "ocrProgress s0 = ocrProgress t0"
    using ws wt by (simp_all add: s0 t0)
  have pr: "ocrProgress s1 = ocrProgress t1"
    unfolding s1_def t1_def by (rule loggers_progress_eq [OF w0])
  have fs: "ocrText s1 = []" "pending s1 (nextJob s) = Some AwaitRecognize" "workerRef s1 \<noteq> None"
    using ws by (subst s1, simp add: s0)+
  have ft: "ocrText t1 = []" "pending t1 (nextJob t) = Some AwaitRecognize" "workerRef t1 \<noteq> None"
    using wt by (subst t1, simp add: t0)+
  let ?s2 = "step s1 (Settle (nextJob s) v)" and ?t2 = "step t1 (Settle (nextJob t) v)"
  have first: "published ?s2 = published ?t2
      \<and> pending ?s2 (nextJob s) = pending ?t2 (nextJob t)
      \<and> workerRef ?s2 \<noteq> None \<and> workerRef ?t2 \<noteq> None"
  proof (cases v)
    case Rejected
    show ?thesis
      using fs ft pr
      by (simp add: Rejected recognize_rejected published_def del: step.simps)
  next
    case (Recognized r)
    show ?thesis
    proof (cases "list_all is_ws (extracted_text r)")
      case True
      show ?thesis
        using fs ft pr
        by (simp add: Recognized recognized_blank [OF _ True] published_def del: step.simps)
    next
      case False
      show ?thesis
        using fs ft pr
        by (simp add: Recognized recognized_text [OF _ False] published_def del: step.simps)
    qed
  qed (use assms(3) in simp_all)
  then have "published (exec ?s2 (map (Settle (nextJob s)) vs))
      = published (exec ?t2 (map (Settle (nextJob t)) vs))"
    by (intro settles_sim) simp_all
  then show ?thesis
    by (simp add: exec_append s0_def [symmetric] t0_def [symmetric] s1_def [symmetric]
        t1_def [symmetric] del: step.simps)
qed

theorem latest_job_alone_decides_witness:
  "matches stale_state = [ibuprofen]
   \<and> starts (Upload (UploadFile (js ''label.jpg''))) (js ''img3'') stale_state
   \<and> published (exec stale_state (fresh_run 2 (Upload (UploadFile (js ''label.jpg'')))))
     = published (exec ready_state (fresh_run 0 Capture))
   \<and> published (exec ready_state (fresh_run 0 Capture))
     = (js ''PARACETAMOL 500mg'', Num 50, [paracetamol], None)"
proof -
  have r: "starts Capture (js ''img3'') ready_state" "nextJob ready_state = 0"
    "workerRef ready_state \<noteq> None"
    by (simp_all add: starts_def ready_state_eq init_state_def js_def)
  have t: "starts (Upload (UploadFile (js ''label.jpg''))) (js ''img3'') stale_state"
    "nextJob stale_state = 2" "matches stale_state = [ibuprofen]"
    by (simp_all add: starts_def stale_state_eq ready_state_eq init_state_def)
  have v: "recognition_outcome (Recognized paracetamol_text)"
    by simp
  have val: "published (exec ready_state (fresh_run 0 Capture))
     = (js ''PARACETAMOL 500mg'', Num 50, [paracetamol], None)"
    using start_job [OF r(1)] r(3)
    by (simp add: fresh_run_def r(2) logger_step half_done_def round64_50
        recognized_text [OF _ paracetamol_text_nonblank] paracetamol_text_trim
        fetch_response body_json published_def js_def del: step.simps)
  show ?thesis
    using latest_job_alone_decides [OF t(1) r(1) v,
        of "[half_done]"
           "[Response True, BodyJson (JObj \<lparr>data_matches = Some [paracetamol], data_warning = None\<rparr>)]"]
      val t(1,3)
    by (simp add: fresh_run_def r(2) t(2) del: step.simps exec_Cons start_events.simps)
qed

end
